theory Spec2Isabelle
  imports Complex_Main "HOL-Library.AList"
begin

section \<open>Values of the Python program\<close>

text \<open>
  The proxy works on parsed JSON. \<open>json.loads\<close> yields \<open>None\<close>, booleans, integers,
  floats (\<open>NaN\<close> and the infinities included), strings, lists and dicts. A dict keeps its
  keys in insertion order, so it is an association list; \<open>d.get(k, default)\<close>,
  \<open>d[k] = v\<close> and \<open>del d[k]\<close> are \<open>dict_get\<close>, \<open>AList.update\<close> (in place for a key that
  is there, at the end for a new one) and \<open>AList.delete\<close>.

  A Python \<open>str\<close> is a list of code points; it is modelled as a \<open>string\<close> whose
  characters each stand for one code point below 256, so \<open>length\<close> is Python's \<open>len\<close>.
\<close>

datatype pyfloat = Finite rat | PosInf | NegInf | NaN

datatype json =
    JNull
  | JBool bool
  | JInt int
  | JFloat pyfloat
  | JStr string
  | JArr "json list"
  | JObj "(string \<times> json) list"

type_synonym dict = "(string \<times> json) list"

datatype exn =
    TypeError
  | ValueError
  | KeyError
  | AttributeError
  | JSONDecodeError
  | UnicodeDecodeError

definition dict_get :: "dict \<Rightarrow> string \<Rightarrow> json \<Rightarrow> json" where
  "dict_get d k dflt = (case map_of d k of None \<Rightarrow> dflt | Some v \<Rightarrow> v)"

text \<open>\<open>x > 0\<close> for a float: false for \<open>NaN\<close> and for minus infinity.\<close>

fun float_gt_zero :: "pyfloat \<Rightarrow> bool" where
  "float_gt_zero (Finite r) = (0 < r)"
| "float_gt_zero PosInf = True"
| "float_gt_zero NegInf = False"
| "float_gt_zero NaN = False"

text \<open>
  \<open>x > 0\<close> for a JSON value other than \<open>None\<close>: a boolean compares as 0 or 1, a
  string, a list or a dict raises \<open>TypeError\<close>. (For \<open>None\<close> the program never
  evaluates the comparison; it would raise as well.)
\<close>

fun py_gt_zero :: "json \<Rightarrow> exn + bool" where
  "py_gt_zero JNull = Inl TypeError"
| "py_gt_zero (JBool b) = Inr b"
| "py_gt_zero (JInt i) = Inr (0 < i)"
| "py_gt_zero (JFloat f) = Inr (float_gt_zero f)"
| "py_gt_zero (JStr s) = Inl TypeError"
| "py_gt_zero (JArr xs) = Inl TypeError"
| "py_gt_zero (JObj kvs) = Inl TypeError"

text \<open>
  The functions of the Python library that the program calls and that are not part of
  the repository are parameters of the model:
  \<^item> \<open>json_loads\<close>: \<open>json.loads\<close> on the bytes of a body; it returns the parsed value or
    raises (\<open>JSONDecodeError\<close> for malformed JSON, \<open>UnicodeDecodeError\<close> for bytes that
    are not text);
  \<^item> \<open>json_dumps\<close>: \<open>json.dumps(x).encode()\<close>;
  \<^item> \<open>json_dumps_sorted\<close>: \<open>json.dumps(x, sort_keys=True, default=str)\<close>;
  \<^item> \<open>sha256_hexdigest\<close>: \<open>hashlib.sha256(s.encode()).hexdigest()\<close>;
  \<^item> \<open>md5_hexdigest\<close>: \<open>hashlib.md5(s.encode()).hexdigest()\<close>;
  \<^item> \<open>float_sub\<close>: \<open>a - b\<close> on two floats, which is the exact difference rounded to a
    double. A float is modelled by the real number it stands for; comparing a float with
    an integer is exact in Python, so only the subtraction is a parameter.
\<close>

record pylib =
  json_loads :: "string \<Rightarrow> exn + json"
  json_dumps :: "json \<Rightarrow> string"
  json_dumps_sorted :: "json \<Rightarrow> string"
  sha256_hexdigest :: "string \<Rightarrow> string"
  md5_hexdigest :: "string \<Rightarrow> string"
  float_sub :: "real \<Rightarrow> real \<Rightarrow> real"

section \<open>cache.py: ResponseCache\<close>

text \<open>
  An entry is \<open>{"data": response_data, "ts": time.time()}\<close>. The readings of the clock
  are parameters of \<open>get\<close> and \<open>put\<close>; \<open>_stats\<close> is the three counters.
\<close>

record cache_entry =
  data :: json
  ts :: real

record ResponseCache =
  enabled :: bool
  ttl :: int
  max_size :: int
  cache :: "(string \<times> cache_entry) list"
  hits :: nat
  misses :: nat
  evictions :: nat

definition init :: "bool \<Rightarrow> int \<Rightarrow> int \<Rightarrow> ResponseCache" where
  "init e t m =
     \<lparr>enabled = e, ttl = t, max_size = m, cache = [], hits = 0, misses = 0, evictions = 0\<rparr>"

text \<open>
  \<open>_make_key\<close>: the four key parts, serialised with sorted keys, hashed, cut to 16
  characters.
\<close>

definition make_key :: "pylib \<Rightarrow> dict \<Rightarrow> string" where
  "make_key L request_data =
     (let key_parts =
        [(''max_tokens'', dict_get request_data ''max_tokens'' JNull),
         (''messages'', dict_get request_data ''messages'' (JArr [])),
         (''model'', dict_get request_data ''model'' (JStr '''')),
         (''temperature'', dict_get request_data ''temperature'' (JFloat (Finite 1)))];
        raw = json_dumps_sorted L (JObj key_parts)
      in take 16 (sha256_hexdigest L raw))"

text \<open>
  \<open>get\<close> returns Python's \<open>None\<close> (here \<open>JNull\<close>) for an absent entry. \<open>now\<close> is the
  clock read by the TTL check, \<open>now'\<close> the clock read by the refresh. The test
  \<open>time.time() - entry["ts"] > self.ttl\<close> subtracts two floats and compares the rounded
  difference with the integer \<open>ttl\<close>.
\<close>

definition get :: "pylib \<Rightarrow> ResponseCache \<Rightarrow> dict \<Rightarrow> real \<Rightarrow> real \<Rightarrow> json \<times> ResponseCache" where
  "get L c request_data now now' =
     (if \<not> enabled c then (JNull, c)
      else
        let key = make_key L request_data in
        case map_of (cache c) key of
          None \<Rightarrow> (JNull, c\<lparr>misses := misses c + 1\<rparr>)
        | Some entry \<Rightarrow>
            if float_sub L now (ts entry) > real_of_int (ttl c)
            then (JNull, c\<lparr>cache := AList.delete key (cache c), misses := misses c + 1\<rparr>)
            else (data entry,
                  c\<lparr>hits := hits c + 1,
                    cache := AList.update key (entry\<lparr>ts := now'\<rparr>) (cache c)\<rparr>))"

text \<open>
  \<open>min(self._cache, key=lambda k: self._cache[k]["ts"])\<close>: the keys are visited in
  insertion order and the best one so far is replaced only by a strictly smaller
  timestamp. On an empty dict \<open>min\<close> raises \<open>ValueError\<close>.
\<close>

fun min_from :: "string \<times> cache_entry \<Rightarrow> (string \<times> cache_entry) list \<Rightarrow> string \<times> cache_entry" where
  "min_from best [] = best"
| "min_from best (x # xs) = min_from (if ts (snd x) < ts (snd best) then x else best) xs"

definition oldest_key :: "(string \<times> cache_entry) list \<Rightarrow> exn + string" where
  "oldest_key es = (case es of [] \<Rightarrow> Inl ValueError | e # rest \<Rightarrow> Inr (fst (min_from e rest)))"

definition put :: "pylib \<Rightarrow> ResponseCache \<Rightarrow> dict \<Rightarrow> json \<Rightarrow> real \<Rightarrow> exn + ResponseCache" where
  "put L c request_data response_data now =
     (if \<not> enabled c then Inr c
      else
        let temp = dict_get request_data ''temperature'' (JFloat (Finite 1)) in
        case (if temp = JNull then Inr False else py_gt_zero temp) of
          Inl e \<Rightarrow> Inl e
        | Inr True \<Rightarrow> Inr c
        | Inr False \<Rightarrow>
            let key = make_key L request_data;
                new = \<lparr>data = response_data, ts = now\<rparr>
            in
            if max_size c \<le> int (length (cache c)) \<and> map_of (cache c) key = None
            then
              (case oldest_key (cache c) of
                 Inl e \<Rightarrow> Inl e
               | Inr k \<Rightarrow>
                   Inr (c\<lparr>cache := AList.update key new (AList.delete k (cache c)),
                          evictions := evictions c + 1\<rparr>))
            else Inr (c\<lparr>cache := AList.update key new (cache c)\<rparr>))"

definition clear :: "ResponseCache \<Rightarrow> ResponseCache" where
  "clear c = c\<lparr>cache := []\<rparr>"

section \<open>compressor.py: the text passes\<close>

text \<open>
  The passes are regular-expression substitutions. Each is written out as the scan that
  \<open>re.sub\<close> performs: the text is read from the left, at each position the pattern is
  tried, a match is replaced and the scan goes on behind it, otherwise the character is
  kept. The character classes are those of Python's \<open>re\<close> on \<open>str\<close>, for the code
  points below 256: \<open>\s\<close> is \<open>is_space\<close>, \<open>\w\<close> is \<open>is_word\<close>, \<open>[ \t]\<close> is
  \<open>is_blank\<close>, and \<open>.\<close> is every character but the newline.
\<close>

abbreviation NL :: char where "NL \<equiv> CHR 0x0A"

abbreviation fence :: string where "fence \<equiv> [CHR 0x60, CHR 0x60, CHR 0x60]"

definition is_space :: "char \<Rightarrow> bool" where
  "is_space c =
     (let n = (of_char c :: nat)
      in (9 \<le> n \<and> n \<le> 13) \<or> (28 \<le> n \<and> n \<le> 32) \<or> n = 133 \<or> n = 160)"

definition is_blank :: "char \<Rightarrow> bool" where
  "is_blank c = (c = CHR '' '' \<or> c = CHR 0x09)"

definition is_word :: "char \<Rightarrow> bool" where
  "is_word c =
     (let n = (of_char c :: nat)
      in (48 \<le> n \<and> n \<le> 57) \<or> (65 \<le> n \<and> n \<le> 90) \<or> n = 95 \<or> (97 \<le> n \<and> n \<le> 122)
         \<or> n = 170 \<or> n = 178 \<or> n = 179 \<or> n = 181 \<or> n = 185 \<or> n = 186
         \<or> (188 \<le> n \<and> n \<le> 190) \<or> (192 \<le> n \<and> n \<le> 214) \<or> (216 \<le> n \<and> n \<le> 246)
         \<or> 248 \<le> n)"

text \<open>
  \<open>re.sub(p{k,}, repl, s)\<close> for a one-character class \<open>p\<close>: a maximal run of at least
  \<open>k\<close> such characters is replaced, a shorter run is kept.
\<close>

function sub_run :: "(char \<Rightarrow> bool) \<Rightarrow> nat \<Rightarrow> string \<Rightarrow> string \<Rightarrow> string" where
  "sub_run p k repl [] = []"
| "sub_run p k repl (c # cs) =
     (if p c \<and> k \<le> Suc (length (takeWhile p cs))
      then repl @ sub_run p k repl (dropWhile p cs)
      else c # sub_run p k repl cs)"
  by pat_completeness auto
termination
  by (relation "measure (\<lambda>(p, k, repl, s). length s)")
     (auto simp: length_dropWhile_le less_Suc_eq_le)

text \<open>\<open>re.sub(r'[ \t]+\n', '\n', s)\<close>: blanks that end a line are dropped.\<close>

function strip_trailing :: "string \<Rightarrow> string" where
  "strip_trailing [] = []"
| "strip_trailing (c # cs) =
     (if is_blank c \<and> take 1 (dropWhile is_blank cs) = [NL]
      then strip_trailing (dropWhile is_blank cs)
      else c # strip_trailing cs)"
  by pat_completeness auto
termination
  by (relation "measure length") (auto simp: length_dropWhile_le less_Suc_eq_le)

text \<open>
  The first occurrence of a literal: \<open>find_sub pat s = Some (a, b)\<close> when
  \<open>s = a @ pat @ b\<close> with the occurrence leftmost. It gives the lazy \<open>[\s\S]*?\<close> in
  front of a closing fence.
\<close>

fun find_sub :: "string \<Rightarrow> string \<Rightarrow> (string \<times> string) option" where
  "find_sub pat [] = (if pat = [] then Some ([], []) else None)"
| "find_sub pat (c # cs) =
     (if take (length pat) (c # cs) = pat then Some ([], drop (length pat) (c # cs))
      else map_option (\<lambda>(a, b). (c # a, b)) (find_sub pat cs))"

lemma find_sub_length: "find_sub pat s = Some (a, b) \<Longrightarrow> length b \<le> length s"
  by (induction s arbitrary: a) (auto split: if_splits)

text \<open>
  \<open>re.split(r'(```[\s\S]*?```)', text)\<close>: the pieces outside the fenced blocks and the
  blocks themselves, alternating, the first and the last piece outside. \<open>acc\<close> is the
  outside piece read so far.
\<close>

function split_code :: "string \<Rightarrow> string \<Rightarrow> string list" where
  "split_code acc [] = [acc]"
| "split_code acc (c # cs) =
     (if take 3 (c # cs) = fence
      then (case find_sub fence (drop 3 (c # cs)) of
              Some (inner, rest) \<Rightarrow> acc # (fence @ inner @ fence) # split_code [] rest
            | None \<Rightarrow> split_code (acc @ [c]) cs)
      else split_code (acc @ [c]) cs)"
  by pat_completeness auto
termination
  by (relation "measure (\<lambda>(acc, s). length s)")
     (auto dest!: find_sub_length simp: less_Suc_eq_le)

text \<open>\<open>for i in range(0, len(parts), 2): parts[i] = f(parts[i])\<close>\<close>

fun map_even :: "('a \<Rightarrow> 'a) \<Rightarrow> 'a list \<Rightarrow> 'a list" where
  "map_even f [] = []"
| "map_even f [x] = [f x]"
| "map_even f (x # y # r) = f x # y # map_even f r"

definition normalize_whitespace :: "string \<Rightarrow> string" where
  "normalize_whitespace text0 =
     (let text1 = sub_run (\<lambda>c. c = NL) 3 [NL, NL] text0;
          text2 = strip_trailing text1;
          parts = split_code [] text2
      in concat (map_even (sub_run (\<lambda>c. c = CHR '' '') 2 '' '') parts))"

text \<open>
  \<open>re.sub(r'(?m)^\s*//.*$\n?', '', code)\<close> and \<open>re.sub(r'(?m)^\s*#(?!!).*$\n?', '', code)\<close>.
  \<open>bol\<close> says that the position is the start of the text or follows a newline, where
  \<open>^\<close> matches. There the greedy \<open>\s*\<close> takes the whole run of white space, newlines
  included; the comment sign must follow (\<open>starts\<close>); \<open>.*$\<close> runs to the end of that
  line and \<open>\n?\<close> takes its newline.
\<close>

definition starts_slashes :: "string \<Rightarrow> bool" where
  "starts_slashes s = (take 2 s = ''//'')"

definition starts_hash :: "string \<Rightarrow> bool" where
  "starts_hash s =
     (case s of [] \<Rightarrow> False
      | c # r \<Rightarrow> c = CHR ''#'' \<and> (case r of [] \<Rightarrow> True | d # _ \<Rightarrow> d \<noteq> CHR ''!''))"

function sub_comment :: "(string \<Rightarrow> bool) \<Rightarrow> bool \<Rightarrow> string \<Rightarrow> string" where
  "sub_comment starts bol [] = []"
| "sub_comment starts bol (c # cs) =
     (if bol \<and> starts (dropWhile is_space (c # cs))
      then (case dropWhile (\<lambda>x. x \<noteq> NL) (dropWhile is_space (c # cs)) of
              [] \<Rightarrow> []
            | n # rest \<Rightarrow> sub_comment starts True rest)
      else c # sub_comment starts (c = NL) cs)"
  by pat_completeness auto
termination
proof (relation "measure (\<lambda>(starts, bol, s). length s)")
  fix starts :: "string \<Rightarrow> bool" and bol :: bool and c :: char and cs n rest
  assume "dropWhile (\<lambda>x. x \<noteq> NL) (dropWhile is_space (c # cs)) = n # rest"
  then have "Suc (length rest) = length (dropWhile (\<lambda>x. x \<noteq> NL) (dropWhile is_space (c # cs)))"
    by simp
  also have "\<dots> \<le> length (dropWhile is_space (c # cs))"
    by (rule length_dropWhile_le)
  also have "\<dots> \<le> length (c # cs)"
    by (rule length_dropWhile_le)
  finally show "((starts, True, rest), (starts, bol, c # cs)) \<in> measure (\<lambda>(starts, bol, s). length s)"
    by simp
qed auto

definition strip_comments :: "string \<Rightarrow> string" where
  "strip_comments code = sub_comment starts_hash True (sub_comment starts_slashes True code)"

text \<open>\<open>str.strip()\<close>\<close>

definition py_strip :: "string \<Rightarrow> string" where
  "py_strip s = rev (dropWhile is_space (rev (dropWhile is_space s)))"

text \<open>The inner function \<open>compress_code\<close>, on the two groups of a match.\<close>

definition compress_code :: "string \<Rightarrow> string \<Rightarrow> string" where
  "compress_code lang code0 =
     (let code1 = strip_comments code0;
          code2 = sub_run (\<lambda>c. c = NL) 2 [NL] code1;
          code3 = strip_trailing code2
      in fence @ lang @ [NL] @ py_strip code3 @ [NL] @ fence)"

text \<open>
  \<open>re.sub(r'```(\w*)\n([\s\S]*?)```', compress_code, text)\<close>: a block is an opening
  fence, a run of word characters, a newline, and the shortest text up to the next
  fence.
\<close>

function compress_code_blocks :: "string \<Rightarrow> string" where
  "compress_code_blocks [] = []"
| "compress_code_blocks (c # cs) =
     (if take 3 (c # cs) = fence
      then (let after = drop 3 (c # cs);
                lang = takeWhile is_word after
            in case dropWhile is_word after of
                 [] \<Rightarrow> c # compress_code_blocks cs
               | n # body \<Rightarrow>
                   if n = NL
                   then (case find_sub fence body of
                           Some (code, rest) \<Rightarrow> compress_code lang code @ compress_code_blocks rest
                         | None \<Rightarrow> c # compress_code_blocks cs)
                   else c # compress_code_blocks cs)
      else c # compress_code_blocks cs)"
  by pat_completeness auto
termination
proof (relation "measure length")
  fix c :: char and cs after lang n body x code rest
  assume a: "after = drop 3 (c # cs)" "dropWhile is_word after = n # body"
    and f: "find_sub fence body = Some x" "(code, rest) = x"
  from f have "length rest \<le> length body"
    using find_sub_length [of fence body code rest] by simp
  also have "\<dots> < length (dropWhile is_word after)"
    using a by simp
  also have "\<dots> \<le> length after"
    by (rule length_dropWhile_le)
  also have "\<dots> \<le> length (c # cs)"
    using a by simp
  finally show "(rest, c # cs) \<in> measure length"
    by simp
qed auto

text \<open>\<open>text.split('\n')\<close> and \<open>'\n'.join(lines)\<close>\<close>

fun split_nl :: "string \<Rightarrow> string list" where
  "split_nl [] = [[]]"
| "split_nl (c # cs) =
     (if c = NL then [] # split_nl cs
      else (case split_nl cs of [] \<Rightarrow> [[c]] | l # ls \<Rightarrow> (c # l) # ls))"

fun join_nl :: "string list \<Rightarrow> string" where
  "join_nl [] = []"
| "join_nl [l] = l"
| "join_nl (l # m # ls) = l @ NL # join_nl (m # ls)"

text \<open>
  \<open>_deduplicate_blocks\<close>. The state of the \<open>while\<close> loop is the index \<open>i\<close>, the
  fingerprints \<open>seen\<close> and \<open>result_lines\<close>; \<open>dedup_step\<close> is one run of its body.
\<close>

definition block_at :: "string list \<Rightarrow> nat \<Rightarrow> string" where
  "block_at lines i = join_nl (take 3 (drop i lines))"

definition block_hash :: "pylib \<Rightarrow> string \<Rightarrow> string" where
  "block_hash L block = take 8 (md5_hexdigest L block)"

definition marker :: "string \<Rightarrow> string" where
  "marker h = ''[... same as above ('' @ h @ '') ...]''"

definition dedup_step ::
  "pylib \<Rightarrow> string list \<Rightarrow> nat \<times> string list \<times> string list \<Rightarrow> nat \<times> string list \<times> string list" where
  "dedup_step L lines st =
     (case st of (i, seen, result_lines) \<Rightarrow>
        if i + 3 \<le> length lines
        then
          (let block = block_at lines i; h = block_hash L block
           in if h \<in> set seen \<and> 100 < length block
              then (i + 3, seen, result_lines @ [marker h])
              else if 100 < length block
              then (i + 1, h # seen, result_lines @ [lines ! i])
              else (i + 1, seen, result_lines @ [lines ! i]))
        else (i + 1, seen, result_lines @ [lines ! i]))"

function dedup_loop ::
  "pylib \<Rightarrow> string list \<Rightarrow> nat \<times> string list \<times> string list \<Rightarrow> nat \<times> string list \<times> string list" where
  "dedup_loop L lines st =
     (if fst st < length lines then dedup_loop L lines (dedup_step L lines st) else st)"
  by pat_completeness auto
termination
  by (relation "measure (\<lambda>(L, lines, st). length lines - fst st)")
     (auto simp: dedup_step_def Let_def split: prod.splits)

declare dedup_loop.simps [simp del]

definition deduplicate_blocks :: "pylib \<Rightarrow> string \<Rightarrow> string" where
  "deduplicate_blocks L text0 =
     (let lines = split_nl text0
      in if length lines < 20 then text0
         else join_nl (snd (snd (dedup_loop L lines (0, [], [])))))"

text \<open>
  \<open>_abbreviate_patterns\<close>: each pattern is a literal, matched without regard to case.
  Below code point 256 a letter of a pattern matches itself and its other ASCII case.
\<close>

definition lower :: "char \<Rightarrow> char" where
  "lower c =
     (let n = (of_char c :: nat) in if 65 \<le> n \<and> n \<le> 90 then char_of (n + 32) else c)"

function isub :: "string \<Rightarrow> string \<Rightarrow> string \<Rightarrow> string" where
  "isub pat repl [] = []"
| "isub pat repl (c # cs) =
     (if pat \<noteq> [] \<and> map lower (take (length pat) (c # cs)) = map lower pat
      then repl @ isub pat repl (drop (length pat) (c # cs))
      else c # isub pat repl cs)"
  by pat_completeness auto
termination
  by (relation "measure (\<lambda>(pat, repl, s). length s)") auto

definition abbrevs_list :: "(string \<times> string) list" where
  "abbrevs_list =
     [(''Please note that '', []),
      (''It is important to note that '', []),
      (''As mentioned earlier, '', []),
      (''In order to '', ''To ''),
      (''Due to the fact that '', ''Because ''),
      (''At this point in time'', ''Now''),
      (''In the event that '', ''If ''),
      (''For the purpose of '', ''For ''),
      (''With regard to '', ''About ''),
      (''In the context of '', ''In '')]"

definition abbreviate_patterns :: "string \<Rightarrow> string" where
  "abbreviate_patterns text0 = foldl (\<lambda>t (pat, repl). isub pat repl t) text0 abbrevs_list"

definition compress_text :: "pylib \<Rightarrow> int \<Rightarrow> string \<Rightarrow> string" where
  "compress_text L lvl text0 =
     (let r1 = normalize_whitespace text0;
          r2 = (if 2 \<le> lvl then deduplicate_blocks L (compress_code_blocks r1) else r1)
      in if 3 \<le> lvl then abbreviate_patterns r2 else r2)"

section \<open>compressor.py: compress_messages\<close>

text \<open>
  The compressor object: its level and the three counters of \<open>stats\<close>. A function that
  updates the counters returns the object with its result, also when it raises: the
  counters keep what was added before the exception.
\<close>

record TokenCompressor =
  level :: int
  original_chars :: nat
  compressed_chars :: nat
  calls :: nat

text \<open>
  One element of a list-valued \<open>content\<close>. A dict whose \<open>type\<close> is \<open>"text"\<close> is copied
  and its \<open>text\<close> compressed; \<open>part["text"]\<close> raises \<open>KeyError\<close> when the key is
  missing; a \<open>text\<close> that is not a string raises \<open>TypeError\<close>, in \<open>len\<close> or, for a list
  or a dict, in the first \<open>re.sub\<close> after its length was counted. Every other part is
  appended as it is.
\<close>

definition compress_part ::
  "pylib \<Rightarrow> TokenCompressor \<Rightarrow> json \<Rightarrow> (exn + json) \<times> TokenCompressor" where
  "compress_part L tc part =
     (case part of
        JObj kvs \<Rightarrow>
          if map_of kvs ''type'' = Some (JStr ''text'')
          then
            (case map_of kvs ''text'' of
               None \<Rightarrow> (Inl KeyError, tc)
             | Some (JStr original) \<Rightarrow>
                 (let new = compress_text L (level tc) original
                  in (Inr (JObj (AList.update ''text'' (JStr new) kvs)),
                      tc\<lparr>original_chars := original_chars tc + length original,
                         compressed_chars := compressed_chars tc + length new\<rparr>))
             | Some (JArr xs) \<Rightarrow>
                 (Inl TypeError, tc\<lparr>original_chars := original_chars tc + length xs\<rparr>)
             | Some (JObj d) \<Rightarrow>
                 (Inl TypeError,
                  tc\<lparr>original_chars := original_chars tc + length d\<rparr>)
             | Some _ \<Rightarrow> (Inl TypeError, tc))
          else (Inr part, tc)
      | _ \<Rightarrow> (Inr part, tc))"

fun compress_parts ::
  "pylib \<Rightarrow> TokenCompressor \<Rightarrow> json list \<Rightarrow> (exn + json list) \<times> TokenCompressor" where
  "compress_parts L tc [] = (Inr [], tc)"
| "compress_parts L tc (part # parts) =
     (case compress_part L tc part of
        (Inl e, tc') \<Rightarrow> (Inl e, tc')
      | (Inr new_part, tc') \<Rightarrow>
          (case compress_parts L tc' parts of
             (Inl e, tc'') \<Rightarrow> (Inl e, tc'')
           | (Inr new_parts, tc'') \<Rightarrow> (Inr (new_part # new_parts), tc'')))"

text \<open>The body of the loop over the messages, for one message.\<close>

definition compress_msg ::
  "pylib \<Rightarrow> TokenCompressor \<Rightarrow> dict \<Rightarrow> (exn + dict) \<times> TokenCompressor" where
  "compress_msg L tc msg =
     (case map_of msg ''content'' of
        Some (JStr original) \<Rightarrow>
          (let new = compress_text L (level tc) original
           in (Inr (AList.update ''content'' (JStr new) msg),
               tc\<lparr>original_chars := original_chars tc + length original,
                  compressed_chars := compressed_chars tc + length new\<rparr>))
      | Some (JArr parts) \<Rightarrow>
          (case compress_parts L tc parts of
             (Inl e, tc') \<Rightarrow> (Inl e, tc')
           | (Inr new_parts, tc') \<Rightarrow> (Inr (AList.update ''content'' (JArr new_parts) msg), tc'))
      | _ \<Rightarrow> (Inr msg, tc))"

fun compress_msgs ::
  "pylib \<Rightarrow> TokenCompressor \<Rightarrow> dict list \<Rightarrow> (exn + dict list) \<times> TokenCompressor" where
  "compress_msgs L tc [] = (Inr [], tc)"
| "compress_msgs L tc (msg # msgs) =
     (case compress_msg L tc msg of
        (Inl e, tc') \<Rightarrow> (Inl e, tc')
      | (Inr new_msg, tc') \<Rightarrow>
          (case compress_msgs L tc' msgs of
             (Inl e, tc'') \<Rightarrow> (Inl e, tc'')
           | (Inr compressed, tc'') \<Rightarrow> (Inr (new_msg # compressed), tc'')))"

text \<open>
  \<open>compress_messages\<close> is declared on \<open>List[Dict]\<close>. The server passes it whatever JSON
  value the request has under \<open>messages\<close>. At level 0 that value is returned as it is.
  At the other levels the loop is modelled on a list of dicts; what Python does in the
  loop with any other value (most raise, a few are converted by \<open>dict(msg)\<close>) is the
  parameter \<open>ill\<close>, so that nothing proved here depends on it.
\<close>

fun dicts_of :: "json list \<Rightarrow> dict list option" where
  "dicts_of [] = Some []"
| "dicts_of (JObj d # xs) = map_option ((#) d) (dicts_of xs)"
| "dicts_of (_ # xs) = None"

type_synonym ill_typed = "json \<Rightarrow> TokenCompressor \<Rightarrow> (exn + json) \<times> TokenCompressor"

definition compress_messages ::
  "pylib \<Rightarrow> ill_typed \<Rightarrow> TokenCompressor \<Rightarrow> json \<Rightarrow> (exn + json) \<times> TokenCompressor" where
  "compress_messages L ill tc messages =
     (if level tc = 0 then (Inr messages, tc)
      else
        (case messages of
           JArr xs \<Rightarrow>
             (case dicts_of xs of
                Some msgs \<Rightarrow>
                  (case compress_msgs L tc msgs of
                     (Inl e, tc') \<Rightarrow> (Inl e, tc')
                   | (Inr compressed, tc') \<Rightarrow>
                       (Inr (JArr (map JObj compressed)), tc'\<lparr>calls := calls tc' + 1\<rparr>))
              | None \<Rightarrow> ill messages tc)
         | _ \<Rightarrow> ill messages tc))"

section \<open>server.py: proxy\<close>

text \<open>
  The handler \<open>proxy\<close> of \<open>create_app\<close>. The inbound request, the call to the target
  API and the reply to the caller are records; the transport is the parameter
  \<open>upstream\<close>, which returns the target's response or raises. The calls that the
  handler makes on the cache, on the transport and on the statistics recorder are
  logged, in order, in \<open>events\<close>.
\<close>

record request =
  req_method :: string
  req_path :: string
  req_headers :: "(string \<times> string) list"
  req_body :: string

record upstream_request =
  u_method :: string
  u_url :: string
  u_headers :: "(string \<times> string) list"
  u_content :: string
  u_stream :: bool

record upstream_response =
  status_code :: int
  r_headers :: "(string \<times> string) list"
  content :: string

datatype reply =
    JSONResponse json
  | StreamingResponse int "(string \<times> string) list" string
  | Response int "(string \<times> string) list" string

datatype event =
    CacheGet dict
  | CachePut json json
  | Send upstream_request
  | StatsRecord bool bool

type_synonym transport = "upstream_request \<Rightarrow> exn + upstream_response"

text \<open>The three readings of the clock that the cache takes.\<close>

record clock =
  t_check :: real
  t_refresh :: real
  t_store :: real

text \<open>Truth value of a JSON value in \<open>if x\<close> and \<open>not x\<close>.\<close>

fun truthy :: "json \<Rightarrow> bool" where
  "truthy JNull = False"
| "truthy (JBool b) = b"
| "truthy (JInt i) = (i \<noteq> 0)"
| "truthy (JFloat f) = (f \<noteq> Finite 0)"
| "truthy (JStr s) = (s \<noteq> [])"
| "truthy (JArr xs) = (xs \<noteq> [])"
| "truthy (JObj kvs) = (kvs \<noteq> [])"

definition endswith :: "string \<Rightarrow> string \<Rightarrow> bool" where
  "endswith s suf = (take (length suf) (rev s) = rev suf)"

definition pop_all :: "string list \<Rightarrow> (string \<times> string) list \<Rightarrow> (string \<times> string) list" where
  "pop_all hs d = foldl (\<lambda>d h. AList.delete h d) d hs"

text \<open>
  Lines 95 to 98: when the request has \<open>messages\<close>, they are replaced by the compressed
  ones and the request is serialised again. The result is the rewritten request,
  \<open>None\<close> when there was nothing to rewrite.
\<close>

definition rewrite_messages ::
  "pylib \<Rightarrow> ill_typed \<Rightarrow> TokenCompressor \<Rightarrow> dict \<Rightarrow> (exn + dict option) \<times> TokenCompressor" where
  "rewrite_messages L ill tc d =
     (case map_of d ''messages'' of
        None \<Rightarrow> (Inr None, tc)
      | Some messages \<Rightarrow>
          (case compress_messages L ill tc messages of
             (Inl e, tc') \<Rightarrow> (Inl e, tc')
           | (Inr compressed, tc') \<Rightarrow> (Inr (Some (AList.update ''messages'' compressed d)), tc')))"

text \<open>
  The \<open>try\<close> block of lines 80 to 98. It ends by returning the cached response, by
  running to its end, or by raising; the variables it has assigned by then keep their
  values.
\<close>

datatype try_outcome = Returned json | Completed | Raised exn

record handler_state =
  is_streaming :: json
  cur_body :: string
  compressor :: TokenCompressor
  rcache :: ResponseCache
  events :: "event list"

definition try_block ::
  "pylib \<Rightarrow> ill_typed \<Rightarrow> clock \<Rightarrow> handler_state \<Rightarrow> try_outcome \<times> handler_state" where
  "try_block L ill clk s =
     (case json_loads L (cur_body s) of
        Inl e \<Rightarrow> (Raised e, s)
      | Inr (JObj d) \<Rightarrow>
          (let s1 = s\<lparr>is_streaming := dict_get d ''stream'' (JBool False)\<rparr>;
               looked = (\<not> truthy (is_streaming s1) \<and> enabled (rcache s1));
               (cached, c') =
                  (if looked then get L (rcache s1) d (t_check clk) (t_refresh clk)
                   else (JNull, rcache s1));
               s2 = (if looked
                     then s1\<lparr>rcache := c', events := events s1 @ [CacheGet d]\<rparr>
                     else s1)
           in if looked \<and> cached \<noteq> JNull
              then (Returned cached, s2\<lparr>events := events s2 @ [StatsRecord True False]\<rparr>)
              else
                (case rewrite_messages L ill (compressor s2) d of
                   (Inl e, tc') \<Rightarrow> (Raised e, s2\<lparr>compressor := tc'\<rparr>)
                 | (Inr None, tc') \<Rightarrow> (Completed, s2\<lparr>compressor := tc'\<rparr>)
                 | (Inr (Some d'), tc') \<Rightarrow>
                     (Completed, s2\<lparr>compressor := tc', cur_body := json_dumps L (JObj d')\<rparr>)))
      | Inr _ \<Rightarrow> (Raised AttributeError, s))"

text \<open>
  \<open>except (json.JSONDecodeError, KeyError)\<close> and \<open>except (json.JSONDecodeError, ValueError)\<close>.
  \<open>JSONDecodeError\<close> and \<open>UnicodeDecodeError\<close> are subclasses of \<open>ValueError\<close>.
\<close>

definition caught_parse :: "exn \<Rightarrow> bool" where
  "caught_parse e = (e = JSONDecodeError \<or> e = KeyError)"

definition caught_store :: "exn \<Rightarrow> bool" where
  "caught_store e = (e = JSONDecodeError \<or> e = ValueError \<or> e = UnicodeDecodeError)"

text \<open>
  Lines 144 to 150: the response of a successful chat call is stored under the request
  as it came in. The result is the exception that leaves the \<open>try\<close>, if any.
\<close>

definition store_response ::
  "pylib \<Rightarrow> clock \<Rightarrow> string \<Rightarrow> upstream_response \<Rightarrow> handler_state \<Rightarrow> exn option \<times> handler_state" where
  "store_response L clk original_body resp s =
     (case json_loads L (content resp) of
        Inl e \<Rightarrow> (if caught_store e then None else Some e, s)
      | Inr resp_data \<Rightarrow>
          (case json_loads L original_body of
             Inl e \<Rightarrow> (if caught_store e then None else Some e, s)
           | Inr original_data \<Rightarrow>
               (let s1 = s\<lparr>events := events s @ [CachePut original_data resp_data]\<rparr>
                in case original_data of
                     JObj d \<Rightarrow>
                       (case put L (rcache s1) d resp_data (t_store clk) of
                          Inl e \<Rightarrow> (if caught_store e then None else Some e, s1)
                        | Inr c' \<Rightarrow> (None, s1\<lparr>rcache := c'\<rparr>))
                   | _ \<Rightarrow> (Some AttributeError, s1))))"

record proxy_result =
  answer :: "exn + reply"
  final :: handler_state

text \<open>Lines 103 to 169: the call to the target and the reply.\<close>

definition forward ::
  "pylib \<Rightarrow> transport \<Rightarrow> clock \<Rightarrow> string \<Rightarrow> request \<Rightarrow> bool \<Rightarrow> handler_state \<Rightarrow> proxy_result" where
  "forward L upstream clk target req is_chat s =
     (let hdrs = pop_all [''host'', ''content-length'', ''transfer-encoding''] (req_headers req);
          ureq = \<lparr>u_method = req_method req, u_url = target @ ''/'' @ req_path req, u_headers = hdrs,
                  u_content = cur_body s, u_stream = truthy (is_streaming s)\<rparr>;
          s1 = s\<lparr>events := events s @ [Send ureq]\<rparr>
      in case upstream ureq of
           Inl e \<Rightarrow> \<lparr>answer = Inl e, final = s1\<rparr>
         | Inr resp \<Rightarrow>
             if truthy (is_streaming s)
             then \<lparr>answer = Inr (StreamingResponse (status_code resp) (r_headers resp) (content resp)),
                   final = s1\<lparr>events := events s1 @ [StatsRecord False True]\<rparr>\<rparr>
             else
               (let (err, s2) =
                      (if is_chat \<and> status_code resp = 200 \<and> enabled (rcache s1)
                       then store_response L clk (req_body req) resp s1
                       else (None, s1))
                in case err of
                     Some e \<Rightarrow> \<lparr>answer = Inl e, final = s2\<rparr>
                   | None \<Rightarrow>
                       \<lparr>answer =
                          Inr (Response (status_code resp)
                                 (pop_all [''content-encoding'', ''transfer-encoding'', ''content-length'']
                                    (r_headers resp))
                                 (content resp)),
                        final = s2\<lparr>events := events s2 @ [StatsRecord False False]\<rparr>\<rparr>))"

definition proxy ::
  "pylib \<Rightarrow> ill_typed \<Rightarrow> transport \<Rightarrow> clock \<Rightarrow> string \<Rightarrow> TokenCompressor \<Rightarrow> ResponseCache \<Rightarrow>
   request \<Rightarrow> proxy_result" where
  "proxy L ill upstream clk target tc c req =
     (let is_chat = (endswith (req_path req) ''/chat/completions'' \<and> req_method req = ''POST'');
          s0 = \<lparr>is_streaming = JBool False, cur_body = req_body req, compressor = tc, rcache = c,
                events = []\<rparr>
      in if is_chat \<and> req_body req \<noteq> []
         then
           (case try_block L ill clk s0 of
              (Returned cached, s) \<Rightarrow> \<lparr>answer = Inr (JSONResponse cached), final = s\<rparr>
            | (Completed, s) \<Rightarrow> forward L upstream clk target req is_chat s
            | (Raised e, s) \<Rightarrow>
                if caught_parse e then forward L upstream clk target req is_chat s
                else \<lparr>answer = Inl e, final = s\<rparr>)
         else forward L upstream clk target req is_chat s0)"

section \<open>Notions used in the statements\<close>

text \<open>
  A sequence of operations on a cache. A \<open>put\<close> that raises leaves the object as it was:
  each \<open>raise\<close> in \<open>put\<close> comes before its first assignment.
\<close>

datatype cache_op = Get dict real real | Put dict json real | Clear

fun apply_op :: "pylib \<Rightarrow> ResponseCache \<Rightarrow> cache_op \<Rightarrow> ResponseCache" where
  "apply_op L c (Get r now now') = snd (get L c r now now')"
| "apply_op L c (Put r p now) = (case put L c r p now of Inl e \<Rightarrow> c | Inr c' \<Rightarrow> c')"
| "apply_op L c Clear = clear c"

definition run_ops :: "pylib \<Rightarrow> ResponseCache \<Rightarrow> cache_op list \<Rightarrow> ResponseCache" where
  "run_ops L c ops = foldl (apply_op L) c ops"

text \<open>The temperature test of \<open>put\<close> lets the request through.\<close>

definition storable :: "dict \<Rightarrow> bool" where
  "storable r =
     (let temp = dict_get r ''temperature'' (JFloat (Finite 1))
      in (if temp = JNull then Inr False else py_gt_zero temp) = Inr False)"

text \<open>
  An instance of the library parameters, for running the model on examples: the sorted
  serialisation is cut down to the model name of the request, the digests return their
  argument, no body parses, and the float difference is the exact one (as it is for the
  small whole numbers that the examples use as clock readings).
\<close>

definition toy_lib :: pylib where
  "toy_lib =
     \<lparr>json_loads = (\<lambda>b. Inl JSONDecodeError),
      json_dumps = (\<lambda>j. []),
      json_dumps_sorted =
        (\<lambda>j. case j of
               JObj kvs \<Rightarrow> (case map_of kvs ''model'' of Some (JStr s) \<Rightarrow> s | _ \<Rightarrow> [])
             | _ \<Rightarrow> []),
      sha256_hexdigest = (\<lambda>s. s),
      md5_hexdigest = (\<lambda>s. s),
      float_sub = (\<lambda>a b. a - b)\<rparr>"

text \<open>
  The capacity invariant of a cache built with \<open>max_size = m\<close>: the keys are distinct (the
  list is a dict) and there are at most \<open>m\<close> of them.
\<close>

definition cache_inv :: "int \<Rightarrow> ResponseCache \<Rightarrow> bool" where
  "cache_inv m c = (max_size c = m \<and> distinct (map fst (cache c)) \<and> int (length (cache c)) \<le> m)"

text \<open>Requests and a payload for the examples; \<open>two_entries\<close> is a full cache of capacity 2.\<close>

definition req0 :: dict where
  "req0 = [(''model'', JStr ''gpt-4''),
           (''messages'', JArr [JObj [(''role'', JStr ''user''), (''content'', JStr ''hi'')]]),
           (''temperature'', JInt 0)]"

definition req_of :: "string \<Rightarrow> dict" where
  "req_of m = [(''model'', JStr m), (''temperature'', JInt 0)]"

definition req_no_temp :: dict where
  "req_no_temp = [(''model'', JStr ''gpt-4''),
           (''messages'', JArr [JObj [(''role'', JStr ''user''), (''content'', JStr ''hi'')]])]"

definition req_sampled :: dict where
  "req_sampled = [(''model'', JStr ''c''), (''temperature'', JFloat (Finite (7 / 10)))]"

definition payload0 :: json where
  "payload0 = JObj [(''id'', JInt 1)]"

definition two_entries :: ResponseCache where
  "two_entries =
     run_ops toy_lib (init True 60 2) [Put (req_of ''a'') (JInt 0) 1, Put (req_of ''b'') (JInt 1) 2]"

section \<open>Notions used in the statements on the compressor and the server\<close>

text \<open>
  What compression may change. Two dicts agree but for the key \<open>k\<close> when they have the
  same keys in the same order and the same value under every key other than \<open>k\<close>. A
  part is framed when a text part stays a dict that agrees with the original but for
  \<open>text\<close>, and any other part is the same value. A content is framed when a string
  stays a string, a list stays a list of framed parts, and anything else is the same
  value. A message is framed when it has the same keys in the same order, the same value
  under every key other than \<open>content\<close>, and a framed content.
\<close>

definition same_but :: "string \<Rightarrow> dict \<Rightarrow> dict \<Rightarrow> bool" where
  "same_but k d d' = list_all2 (\<lambda>x y. fst x = fst y \<and> (fst x \<noteq> k \<longrightarrow> snd x = snd y)) d d'"

definition is_text_part :: "json \<Rightarrow> bool" where
  "is_text_part part =
     (case part of JObj kvs \<Rightarrow> map_of kvs ''type'' = Some (JStr ''text'') | _ \<Rightarrow> False)"

definition part_frame :: "json \<Rightarrow> json \<Rightarrow> bool" where
  "part_frame part part' =
     (if is_text_part part
      then (case (part, part') of (JObj kvs, JObj kvs') \<Rightarrow> same_but ''text'' kvs kvs' | _ \<Rightarrow> False)
      else part' = part)"

definition content_frame :: "json \<Rightarrow> json \<Rightarrow> bool" where
  "content_frame v v' =
     (case v of
        JStr s \<Rightarrow> (case v' of JStr s' \<Rightarrow> True | _ \<Rightarrow> False)
      | JArr parts \<Rightarrow> (case v' of JArr parts' \<Rightarrow> list_all2 part_frame parts parts' | _ \<Rightarrow> False)
      | _ \<Rightarrow> v' = v)"

definition msg_frame :: "dict \<Rightarrow> dict \<Rightarrow> bool" where
  "msg_frame msg msg' =
     list_all2 (\<lambda>x y. fst x = fst y
                  \<and> (if fst x = ''content'' then content_frame (snd x) (snd y) else snd x = snd y))
       msg msg'"

fun is_cache_event :: "event \<Rightarrow> bool" where
  "is_cache_event (CacheGet d) = True"
| "is_cache_event (CachePut d p) = True"
| "is_cache_event (Send u) = False"
| "is_cache_event (StatsRecord a b) = False"

text \<open>
  A line begins with the shebang sign; a line is a single-line comment for one of the
  two substitutions when, behind its leading white space, the comment sign follows.
\<close>

definition is_shebang :: "string \<Rightarrow> bool" where
  "is_shebang l = (take 2 l = ''#!'')"

definition comment_line :: "string \<Rightarrow> bool" where
  "comment_line l = (starts_slashes (dropWhile is_space l) \<or> starts_hash (dropWhile is_space l))"

text \<open>
  A window of three lines at index \<open>i\<close> that exceeds the length threshold, and the property
  that every recorded fingerprint is that of such a window.
\<close>

definition long_window :: "string list \<Rightarrow> nat \<Rightarrow> bool" where
  "long_window lines i = (i + 3 \<le> length lines \<and> 100 < length (block_at lines i))"

definition seen_ok :: "pylib \<Rightarrow> string list \<Rightarrow> string list \<Rightarrow> bool" where
  "seen_ok L lines seen =
     (\<forall>h \<in> set seen. \<exists>i. long_window lines i \<and> h = block_hash L (block_at lines i))"

text \<open>Values for the examples.\<close>

definition ill0 :: ill_typed where
  "ill0 = (\<lambda>messages tc. (Inl TypeError, tc))"

definition tc_level :: "int \<Rightarrow> TokenCompressor" where
  "tc_level n = \<lparr>level = n, original_chars = 0, compressed_chars = 0, calls = 0\<rparr>"

definition msgs0 :: "dict list" where
  "msgs0 =
     [[(''role'', JStr ''system''), (''content'', JStr ''a  b''), (''name'', JStr ''sys'')],
      [(''role'', JStr ''user''),
       (''content'',
        JArr [JObj [(''type'', JStr ''text''), (''text'', JStr ''c  d''), (''tag'', JInt 7)],
              JObj [(''type'', JStr ''image_url''), (''image_url'', JStr ''e  f'')]])]]"

definition msgs0' :: "dict list" where
  "msgs0' =
     [[(''role'', JStr ''system''), (''content'', JStr ''a b''), (''name'', JStr ''sys'')],
      [(''role'', JStr ''user''),
       (''content'',
        JArr [JObj [(''type'', JStr ''text''), (''text'', JStr ''c d''), (''tag'', JInt 7)],
              JObj [(''type'', JStr ''image_url''), (''image_url'', JStr ''e  f'')]])]]"

definition chat0 :: dict where
  "chat0 = [(''model'', JStr ''gpt-4''), (''messages'', JArr (map JObj msgs0)),
            (''temperature'', JInt 0), (''stream'', JBool True), (''user'', JStr ''u  1'')]"

definition chat0' :: dict where
  "chat0' = [(''model'', JStr ''gpt-4''), (''messages'', JArr (map JObj msgs0')),
            (''temperature'', JInt 0), (''stream'', JBool True), (''user'', JStr ''u  1'')]"

definition up0 :: transport where
  "up0 = (\<lambda>u. Inr \<lparr>status_code = 200, r_headers = [], content = ''ok''\<rparr>)"

definition clk0 :: clock where
  "clk0 = \<lparr>t_check = 10, t_refresh = 11, t_store = 12\<rparr>"

definition chat_req :: "string \<Rightarrow> request" where
  "chat_req b = \<lparr>req_method = ''POST'', req_path = ''v1/chat/completions'', req_headers = [],
                 req_body = b\<rparr>"

text \<open>A library whose \<open>json.loads\<close> parses every body to the streaming request \<open>chat0\<close>.\<close>

definition lib_chat0 :: pylib where
  "lib_chat0 = toy_lib\<lparr>json_loads := (\<lambda>b. Inr (JObj chat0))\<rparr>"

text \<open>
  A library whose \<open>json.loads\<close> behaves as Python's on the one-byte body \<open>0xFF\<close>, which
  is not UTF-8: it raises \<open>UnicodeDecodeError\<close>.
\<close>

definition lib_bytes :: pylib where
  "lib_bytes =
     toy_lib\<lparr>json_loads := (\<lambda>b. if b = [CHR 0xFF] then Inl UnicodeDecodeError else Inl JSONDecodeError)\<rparr>"

text \<open>The bodies of two fenced blocks, for the examples.\<close>

definition bash_code :: string where
  "bash_code = ''#!/bin/bash'' @ [NL] @ ''# say hello'' @ [NL] @ ''echo hello'' @ [NL]"

definition cpp_block :: string where
  "cpp_block = fence @ ''c++'' @ [NL] @ ''// x'' @ [NL] @ ''int y;'' @ [NL] @ fence"

text \<open>A block tagged \<open>c++\<close> followed by a block tagged \<open>py\<close>, and what level 2 makes of it.\<close>

definition two_blocks :: string where
  "two_blocks =
     fence @ ''c++'' @ [NL] @ ''int a;'' @ [NL] @ fence @ [NL]
     @ fence @ ''py'' @ [NL] @ ''# secret'' @ [NL] @ ''x = 1'' @ [NL] @ fence"

definition two_blocks_out :: string where
  "two_blocks_out =
     fence @ ''c++'' @ [NL] @ ''int a;'' @ [NL] @ fence @ [NL] @ [NL]
     @ fence @ ''py'' @ [NL] @ ''# secret'' @ [NL] @ ''x = 1'' @ [NL] @ fence"

text \<open>Three lines whose window is long, and three whose window is short, for the examples.\<close>

definition long_lines :: "string list" where
  "long_lines = [replicate 101 (CHR ''a''), ''b'', ''c'']"

definition short_lines :: "string list" where
  "short_lines = [''a'', ''b'', ''c'']"

section \<open>ResponseCache: lemmas\<close>

lemma min_from_mem: "min_from b xs \<in> set (b # xs)"
  by (induction xs arbitrary: b) (auto split: if_splits)

lemma min_from_le_start: "ts (snd (min_from b xs)) \<le> ts (snd b)"
proof (induction xs arbitrary: b)
  case Nil
  then show ?case by simp
next
  case (Cons x xs)
  show ?case
    using Cons [of "if ts (snd x) < ts (snd b) then x else b"] by (auto split: if_splits)
qed

lemma min_from_least: "x \<in> set (b # xs) \<Longrightarrow> ts (snd (min_from b xs)) \<le> ts (snd x)"
proof (induction xs arbitrary: b)
  case Nil
  then show ?case by simp
next
  case (Cons y ys)
  let ?b' = "if ts (snd y) < ts (snd b) then y else b"
  have start: "ts (snd (min_from ?b' ys)) \<le> ts (snd ?b')"
    by (rule min_from_le_start)
  from Cons.prems consider "x = b" | "x = y" | "x \<in> set ys" by auto
  then show ?case
  proof cases
    case 1
    with start show ?thesis by (auto split: if_splits)
  next
    case 2
    with start show ?thesis by (auto split: if_splits)
  next
    case 3
    then have "x \<in> set (?b' # ys)" by simp
    from Cons.IH [OF this] show ?thesis by simp
  qed
qed

lemma oldest_key_Inr:
  "es \<noteq> [] \<Longrightarrow> \<exists>k e. oldest_key es = Inr k \<and> (k, e) \<in> set es \<and> (\<forall>x \<in> set es. ts e \<le> ts (snd x))"
proof -
  assume "es \<noteq> []"
  then obtain b rest where es: "es = b # rest" by (cases es) auto
  obtain k e where ke: "min_from b rest = (k, e)" by (cases "min_from b rest")
  have "(k, e) \<in> set es" using min_from_mem [of b rest] ke es by simp
  moreover have "\<forall>x \<in> set es. ts e \<le> ts (snd x)"
    using min_from_least [of _ b rest] ke es by auto
  moreover have "oldest_key es = Inr k" by (simp add: oldest_key_def es ke)
  ultimately show ?thesis by blast
qed

lemma length_delete_present:
  "distinct (map fst es) \<Longrightarrow> (k, e) \<in> set es \<Longrightarrow> Suc (length (AList.delete k es)) = length es"
proof (induction es)
  case Nil
  then show ?case by simp
next
  case (Cons x xs)
  show ?case
  proof (cases "fst x = k")
    case True
    then have "k \<notin> fst ` set xs" using Cons.prems(1) by auto
    then have "AList.delete k xs = xs" by (rule AList.delete_id)
    with True show ?thesis by simp
  next
    case False
    then have "(k, e) \<in> set xs" using Cons.prems(2) by auto
    with Cons False show ?thesis by simp
  qed
qed

lemma length_update:
  "length (AList.update k v al) = (if k \<in> fst ` set al then length al else Suc (length al))"
  by (induction al) auto

lemma put_storable:
  "enabled c \<Longrightarrow> storable r \<Longrightarrow>
   put L c r p now =
     (if max_size c \<le> int (length (cache c)) \<and> map_of (cache c) (make_key L r) = None
      then (case oldest_key (cache c) of
              Inl e \<Rightarrow> Inl e
            | Inr k \<Rightarrow> Inr (c\<lparr>cache := AList.update (make_key L r) \<lparr>data = p, ts = now\<rparr>
                                         (AList.delete k (cache c)),
                               evictions := evictions c + 1\<rparr>))
      else Inr (c\<lparr>cache := AList.update (make_key L r) \<lparr>data = p, ts = now\<rparr> (cache c)\<rparr>))"
  by (simp add: put_def storable_def Let_def)

lemma put_unchanged_or_stored:
  "put L c r p now = Inr c' \<Longrightarrow>
   c' = c \<or> (enabled c \<and> storable r)"
  by (auto simp: put_def storable_def Let_def split: if_splits sum.splits bool.splits)

lemma get_inv: "cache_inv m c \<Longrightarrow> cache_inv m (snd (get L c r now now'))"
proof -
  assume inv: "cache_inv m c"
  have d: "int (length (AList.delete k (cache c))) \<le> m" for k
    using inv length_delete_le [of k "cache c"] by (simp add: cache_inv_def)
  have u: "map_of (cache c) k = Some e \<Longrightarrow> length (AList.update k v (cache c)) = length (cache c)" for k e v
    by (simp add: length_update) (metis domI dom_map_of_conv_image_fst)
  show ?thesis
    using inv d u
    by (auto simp: get_def Let_def cache_inv_def distinct_delete distinct_update
             split: option.splits)
qed

lemma put_inv:
  assumes inv: "cache_inv m c" and p: "put L c r p now = Inr c'"
  shows "cache_inv m c'"
proof -
  from put_unchanged_or_stored [OF p] consider "c' = c" | "enabled c" "storable r" by blast
  then show ?thesis
  proof cases
    case 1
    with inv show ?thesis by simp
  next
    case 2
    let ?key = "make_key L r"
    let ?new = "\<lparr>data = p, ts = now\<rparr>"
    show ?thesis
    proof (cases "max_size c \<le> int (length (cache c)) \<and> map_of (cache c) ?key = None")
      case True
      with p 2 obtain k where k: "oldest_key (cache c) = Inr k"
        and c': "c' = c\<lparr>cache := AList.update ?key ?new (AList.delete k (cache c)),
                         evictions := evictions c + 1\<rparr>"
        by (auto simp: put_storable split: sum.splits)
      from k have ne: "cache c \<noteq> []" by (auto simp: oldest_key_def)
      from oldest_key_Inr [OF ne] k obtain e where mem: "(k, e) \<in> set (cache c)" by auto
      have dist: "distinct (map fst (cache c))" using inv by (simp add: cache_inv_def)
      have len: "Suc (length (AList.delete k (cache c))) = length (cache c)"
        by (rule length_delete_present [OF dist mem])
      have "length (AList.update ?key ?new (AList.delete k (cache c)))
              \<le> Suc (length (AList.delete k (cache c)))"
        by (simp add: length_update)
      with len have "length (cache c') \<le> length (cache c)" by (simp add: c')
      with inv show ?thesis
        by (simp add: cache_inv_def c' distinct_update distinct_delete)
    next
      case False
      with p 2 have c': "c' = c\<lparr>cache := AList.update ?key ?new (cache c)\<rparr>"
        by (auto simp: put_storable)
      have "int (length (AList.update ?key ?new (cache c))) \<le> m"
      proof (cases "map_of (cache c) ?key")
        case None
        with False have "int (length (cache c)) < max_size c" by simp
        with inv show ?thesis by (simp add: length_update cache_inv_def)
      next
        case (Some e)
        then have "?key \<in> fst ` set (cache c)"
          by (metis domI dom_map_of_conv_image_fst)
        with inv show ?thesis by (simp add: length_update cache_inv_def)
      qed
      with inv show ?thesis by (simp add: cache_inv_def c' distinct_update)
    qed
  qed
qed

lemma apply_op_inv: "0 \<le> m \<Longrightarrow> cache_inv m c \<Longrightarrow> cache_inv m (apply_op L c x)"
proof (cases x)
  case (Get r now now')
  assume "cache_inv m c"
  then show ?thesis using Get by (simp add: get_inv)
next
  case (Put r p now)
  assume "cache_inv m c"
  then show ?thesis using Put by (auto split: sum.splits intro: put_inv)
next
  case Clear
  assume "0 \<le> m" "cache_inv m c"
  then show ?thesis using Clear by (simp add: cache_inv_def clear_def)
qed

lemma run_ops_inv: "0 \<le> m \<Longrightarrow> cache_inv m c \<Longrightarrow> cache_inv m (run_ops L c ops)"
  unfolding run_ops_def by (induction ops arbitrary: c) (auto intro: apply_op_inv)

lemma toy_key: "make_key toy_lib (req_of m) = take 16 m"
  by (simp add: make_key_def toy_lib_def dict_get_def req_of_def)

lemma toy_key0: "make_key toy_lib req0 = ''gpt-4''"
  by (simp add: make_key_def toy_lib_def dict_get_def req0_def)

lemma toy_key_nt: "make_key toy_lib req_no_temp = ''gpt-4''"
  by (simp add: make_key_def toy_lib_def dict_get_def req_no_temp_def)

lemma storable_req_of: "storable (req_of m)"
  by (simp add: storable_def req_of_def dict_get_def)

lemma two_entries_eq:
  "two_entries = \<lparr>enabled = True, ttl = 60, max_size = 2,
      cache = [(''a'', \<lparr>data = JInt 0, ts = 1\<rparr>), (''b'', \<lparr>data = JInt 1, ts = 2\<rparr>)],
      hits = 0, misses = 0, evictions = 0\<rparr>"
  by (simp add: two_entries_def run_ops_def put_storable storable_req_of toy_key init_def)

section \<open>ResponseCache: the claims\<close>

text \<open>
  Claim C1, as amended. On an enabled cache of capacity at least 1, for a request whose
  \<open>temperature\<close> field is present and exactly 0 (the integer or the float), \<open>put\<close> at
  time \<open>t1\<close> returns normally, and a \<open>get\<close> of the same request at a time \<open>t2\<close> for
  which the difference \<open>t2 - t1\<close>, as the code computes it, is at most \<open>ttl\<close> returns
  exactly the stored payload. On an enabled cache a request without a \<open>temperature\<close>
  field is never stored: \<open>put\<close> returns and leaves the cache as it was.
\<close>

theorem put_then_get_zero_temperature:
  assumes en: "enabled c"
    and temp: "map_of r ''temperature'' = Some (JInt 0) \<or> map_of r ''temperature'' = Some (JFloat (Finite 0))"
    and cap: "1 \<le> max_size c"
    and fresh: "float_sub L t2 t1 \<le> real_of_int (ttl c)"
  shows "(\<exists>c'. put L c r p t1 = Inr c' \<and> fst (get L c' r t2 t3) = p)
       \<and> (map_of r' ''temperature'' = None \<longrightarrow> put L c r' p t1 = Inr c)"
proof -
  let ?key = "make_key L r"
  let ?new = "\<lparr>data = p, ts = t1\<rparr>"
  from temp have st: "storable r"
    by (auto simp: storable_def dict_get_def)
  have absent: "map_of r' ''temperature'' = None \<longrightarrow> put L c r' p t1 = Inr c"
    using en by (simp add: put_def dict_get_def)
  have "\<exists>c'. put L c r p t1 = Inr c' \<and> fst (get L c' r t2 t3) = p"
  proof (cases "max_size c \<le> int (length (cache c)) \<and> map_of (cache c) ?key = None")
    case True
    with cap have "cache c \<noteq> []" by auto
    from oldest_key_Inr [OF this] obtain k where k: "oldest_key (cache c) = Inr k" by blast
    let ?c' = "c\<lparr>cache := AList.update ?key ?new (AList.delete k (cache c)),
                  evictions := evictions c + 1\<rparr>"
    have "put L c r p t1 = Inr ?c'"
      using True k by (simp add: put_storable [OF en st])
    moreover have "fst (get L ?c' r t2 t3) = p"
      using en fresh by (simp add: get_def Let_def update_conv')
    ultimately show ?thesis by blast
  next
    case False
    let ?c' = "c\<lparr>cache := AList.update ?key ?new (cache c)\<rparr>"
    have "put L c r p t1 = Inr ?c'"
      using False by (auto simp: put_storable [OF en st])
    moreover have "fst (get L ?c' r t2 t3) = p"
      using en fresh by (simp add: get_def Let_def update_conv')
    ultimately show ?thesis by blast
  qed
  with absent show ?thesis by blast
qed

theorem put_then_get_zero_temperature_witness:
  "enabled (init True 60 200)
   \<and> map_of req0 ''temperature'' = Some (JInt 0)
   \<and> 1 \<le> max_size (init True 60 200)
   \<and> float_sub toy_lib 30 10 \<le> real_of_int (ttl (init True 60 200))
   \<and> (\<exists>c'. put toy_lib (init True 60 200) req0 payload0 10 = Inr c'
            \<and> fst (get toy_lib c' req0 30 31) = payload0)
   \<and> map_of req_no_temp ''temperature'' = None
   \<and> put toy_lib (init True 60 200) req_no_temp payload0 10 = Inr (init True 60 200)"
proof -
  have h1: "enabled (init True 60 200)" by (simp add: init_def)
  have h2: "map_of req0 ''temperature'' = Some (JInt 0)" by (simp add: req0_def)
  have h3: "1 \<le> max_size (init True 60 200)" by (simp add: init_def)
  have h4: "float_sub toy_lib 30 10 \<le> real_of_int (ttl (init True 60 200))"
    by (simp add: init_def toy_lib_def)
  have h5: "map_of req_no_temp ''temperature'' = None" by (simp add: req_no_temp_def)
  from put_then_get_zero_temperature [OF h1 disjI1 [OF h2] h3 h4, of payload0 31 req_no_temp]
  show ?thesis using h1 h2 h3 h4 h5 by simp
qed

text \<open>
  The claim as it is written fails for an absent \<open>temperature\<close>: \<open>put\<close> reads the field
  with the default 1.0, which is greater than zero, so nothing is stored and \<open>get\<close>
  reports the entry absent. It also fails on a cache of capacity 0, where \<open>put\<close> raises
  \<open>ValueError\<close> from \<open>min\<close> of the empty dict.
\<close>

theorem absent_temperature_counterexample:
  "put toy_lib (init True 60 200) req_no_temp payload0 10 = Inr (init True 60 200)
   \<and> fst (get toy_lib (init True 60 200) req_no_temp 30 31) = JNull
   \<and> payload0 \<noteq> JNull
   \<and> put toy_lib (init True 60 0) req0 payload0 10 = Inl ValueError"
  by (simp add: put_def get_def init_def dict_get_def req_no_temp_def req0_def payload0_def
        Let_def oldest_key_def toy_key_nt toy_key0)

text \<open>
  Claim C2, as amended. For a cache constructed with \<open>max_size = m\<close>, \<open>m \<ge> 1\<close>: after every
  sequence of \<open>get\<close>, \<open>put\<close> and \<open>clear\<close> the keys are distinct and there are at most \<open>m\<close>
  entries; and a \<open>put\<close> of a new key that passes the temperature test, on an enabled
  cache that holds exactly \<open>m\<close> entries, returns normally, removes exactly one entry, one
  whose timestamp is smallest among all entries, puts the new entry in, increments the
  eviction counter by one, leaves the other counters alone and leaves \<open>m\<close> entries.
\<close>

theorem capacity_bound_and_eviction:
  assumes m: "1 \<le> m"
  shows "distinct (map fst (cache (run_ops L (init en t m) ops)))
       \<and> int (length (cache (run_ops L (init en t m) ops))) \<le> m
       \<and> (\<forall>c r p now.
             enabled c \<and> max_size c = m \<and> distinct (map fst (cache c))
             \<and> int (length (cache c)) = m \<and> storable r
             \<and> map_of (cache c) (make_key L r) = None \<longrightarrow>
             (\<exists>k e c'. put L c r p now = Inr c'
                \<and> (k, e) \<in> set (cache c)
                \<and> (\<forall>x \<in> set (cache c). ts e \<le> ts (snd x))
                \<and> cache c' = AList.update (make_key L r) \<lparr>data = p, ts = now\<rparr>
                                (AList.delete k (cache c))
                \<and> Suc (length (AList.delete k (cache c))) = length (cache c)
                \<and> evictions c' = evictions c + 1
                \<and> hits c' = hits c \<and> misses c' = misses c
                \<and> int (length (cache c')) = m))"
proof -
  have "cache_inv m (init en t m)"
    using m by (simp add: cache_inv_def init_def)
  then have "cache_inv m (run_ops L (init en t m) ops)"
    using m by (intro run_ops_inv) auto
  then have part1: "distinct (map fst (cache (run_ops L (init en t m) ops)))
       \<and> int (length (cache (run_ops L (init en t m) ops))) \<le> m"
    by (simp add: cache_inv_def)
  have part2: "\<exists>k e c'. put L c r p now = Inr c'
                \<and> (k, e) \<in> set (cache c)
                \<and> (\<forall>x \<in> set (cache c). ts e \<le> ts (snd x))
                \<and> cache c' = AList.update (make_key L r) \<lparr>data = p, ts = now\<rparr>
                                (AList.delete k (cache c))
                \<and> Suc (length (AList.delete k (cache c))) = length (cache c)
                \<and> evictions c' = evictions c + 1
                \<and> hits c' = hits c \<and> misses c' = misses c
                \<and> int (length (cache c')) = m"
    if h: "enabled c \<and> max_size c = m \<and> distinct (map fst (cache c))
             \<and> int (length (cache c)) = m \<and> storable r
             \<and> map_of (cache c) (make_key L r) = None" for c r p now
  proof -
    let ?key = "make_key L r"
    from h m have ne: "cache c \<noteq> []" by auto
    from oldest_key_Inr [OF ne] obtain k e where k: "oldest_key (cache c) = Inr k"
      and mem: "(k, e) \<in> set (cache c)" and least: "\<forall>x \<in> set (cache c). ts e \<le> ts (snd x)"
      by blast
    let ?c' = "c\<lparr>cache := AList.update ?key \<lparr>data = p, ts = now\<rparr> (AList.delete k (cache c)),
                  evictions := evictions c + 1\<rparr>"
    have put: "put L c r p now = Inr ?c'"
      using h k by (simp add: put_storable)
    have len: "Suc (length (AList.delete k (cache c))) = length (cache c)"
      using h mem by (intro length_delete_present) auto
    have "?key \<notin> fst ` set (cache c)"
      using h by (metis domI dom_map_of_conv_image_fst domIff)
    then have "?key \<notin> fst ` set (AList.delete k (cache c))"
      by (auto simp: AList.delete_eq)
    then have "length (cache ?c') = Suc (length (AList.delete k (cache c)))"
      by (simp add: length_update)
    with len h have "int (length (cache ?c')) = m" by simp
    with put mem least len show ?thesis by (intro exI [of _ k] exI [of _ e] exI [of _ ?c']) simp
  qed
  from part1 part2 show ?thesis by blast
qed

theorem capacity_bound_and_eviction_witness:
  "(1::int) \<le> 2
   \<and> int (length (cache (run_ops toy_lib (init True 60 2)
        [Put (req_of ''a'') (JInt 0) 1, Put (req_of ''b'') (JInt 1) 2, Put (req_of ''c'') (JInt 2) 3]))) \<le> 2
   \<and> (enabled two_entries \<and> max_size two_entries = 2 \<and> distinct (map fst (cache two_entries))
      \<and> int (length (cache two_entries)) = 2 \<and> storable (req_of ''c'')
      \<and> map_of (cache two_entries) (make_key toy_lib (req_of ''c'')) = None)
   \<and> (\<exists>k e c'. put toy_lib two_entries (req_of ''c'') (JInt 2) 3 = Inr c'
          \<and> (k, e) \<in> set (cache two_entries)
          \<and> (\<forall>x \<in> set (cache two_entries). ts e \<le> ts (snd x))
          \<and> evictions c' = evictions two_entries + 1
          \<and> int (length (cache c')) = 2)"
proof -
  have h: "(1::int) \<le> 2" by simp
  have a: "enabled two_entries \<and> max_size two_entries = 2 \<and> distinct (map fst (cache two_entries))
      \<and> int (length (cache two_entries)) = 2 \<and> storable (req_of ''c'')
      \<and> map_of (cache two_entries) (make_key toy_lib (req_of ''c'')) = None"
    by (simp add: two_entries_eq storable_req_of toy_key)
  note inst = capacity_bound_and_eviction [OF h, of toy_lib True 60
        "[Put (req_of ''a'') (JInt 0) 1, Put (req_of ''b'') (JInt 1) 2, Put (req_of ''c'') (JInt 2) 3]"]
  from inst have b: "int (length (cache (run_ops toy_lib (init True 60 2)
        [Put (req_of ''a'') (JInt 0) 1, Put (req_of ''b'') (JInt 1) 2, Put (req_of ''c'') (JInt 2) 3]))) \<le> 2"
    by blast
  from inst a have "\<exists>k e c'. put toy_lib two_entries (req_of ''c'') (JInt 2) 3 = Inr c'
          \<and> (k, e) \<in> set (cache two_entries)
          \<and> (\<forall>x \<in> set (cache two_entries). ts e \<le> ts (snd x))
          \<and> evictions c' = evictions two_entries + 1
          \<and> int (length (cache c')) = 2"
    by blast
  with h a b show ?thesis by blast
qed

text \<open>
  The claim as it is written fails for \<open>m = 0\<close>: the empty cache holds \<open>m\<close> entries, the key
  is new, and \<open>put\<close> raises \<open>ValueError\<close> (\<open>min\<close> of an empty dict) instead of evicting.
  It also fails for a \<open>put\<close> that the temperature test turns away: on the full cache
  \<open>two_entries\<close> a request with a new key and temperature 0.7 evicts nothing.
\<close>

theorem zero_capacity_counterexample:
  "int (length (cache (init True 60 0))) = 0
   \<and> max_size (init True 60 0) = 0
   \<and> storable (req_of ''a'')
   \<and> map_of (cache (init True 60 0)) (make_key toy_lib (req_of ''a'')) = None
   \<and> put toy_lib (init True 60 0) (req_of ''a'') (JInt 0) 1 = Inl ValueError
   \<and> int (length (cache two_entries)) = max_size two_entries
   \<and> map_of (cache two_entries) (make_key toy_lib req_sampled) = None
   \<and> put toy_lib two_entries req_sampled (JInt 2) 3 = Inr two_entries"
proof -
  have k: "make_key toy_lib req_sampled = ''c''"
    by (simp add: make_key_def toy_lib_def dict_get_def req_sampled_def)
  have a: "put toy_lib (init True 60 0) (req_of ''a'') (JInt 0) 1 = Inl ValueError"
    by (simp add: put_storable storable_req_of init_def oldest_key_def)
  have b: "put toy_lib two_entries req_sampled (JInt 2) 3 = Inr two_entries"
    by (simp add: put_def two_entries_eq dict_get_def req_sampled_def)
  from a b show ?thesis
    by (simp add: k storable_req_of two_entries_eq) (simp add: init_def)
qed

text \<open>
  Claim C10. On a cache constructed with \<open>enabled = False\<close>, \<open>get\<close> returns \<open>None\<close> and
  leaves the whole object, the hit and miss counters included, as it was; \<open>put\<close> returns
  and leaves the store and every counter as they were.
\<close>

theorem disabled_cache_inert:
  "\<not> enabled c \<Longrightarrow> get L c r now now' = (JNull, c) \<and> put L c r p t = Inr c"
  by (simp add: get_def put_def)

theorem disabled_cache_inert_witness:
  "\<not> enabled (init False 300 200)
   \<and> get toy_lib (init False 300 200) req0 5 5 = (JNull, init False 300 200)
   \<and> put toy_lib (init False 300 200) req0 payload0 1 = Inr (init False 300 200)"
proof -
  have h: "\<not> enabled (init False 300 200)" by (simp add: init_def)
  from disabled_cache_inert [OF h] h show ?thesis by simp
qed

text \<open>
  Claim C3. On an enabled cache that holds an entry \<open>e\<close> under the key of the request:
  when \<open>now - ts e > ttl\<close>, with the difference as the code computes it (a float
  subtraction), \<open>get\<close> returns \<open>None\<close>, the key is no longer in the store
  (the entry was still there until this lookup), the other entries are untouched and
  the miss counter grows by one; otherwise \<open>get\<close> returns the payload of \<open>e\<close>, the entry
  has the timestamp of the refresh, the other entries are untouched and the hit counter
  grows by one.
\<close>

theorem get_expiry_and_hit:
  assumes "enabled c" and "map_of (cache c) (make_key L r) = Some e"
  shows "(real_of_int (ttl c) < float_sub L now (ts e) \<longrightarrow>
            fst (get L c r now now') = JNull
          \<and> map_of (cache (snd (get L c r now now'))) (make_key L r) = None
          \<and> (\<forall>k. k \<noteq> make_key L r \<longrightarrow>
                 map_of (cache (snd (get L c r now now'))) k = map_of (cache c) k)
          \<and> misses (snd (get L c r now now')) = misses c + 1
          \<and> hits (snd (get L c r now now')) = hits c)
       \<and> (\<not> real_of_int (ttl c) < float_sub L now (ts e) \<longrightarrow>
            fst (get L c r now now') = data e
          \<and> map_of (cache (snd (get L c r now now'))) (make_key L r) = Some (e\<lparr>ts := now'\<rparr>)
          \<and> (\<forall>k. k \<noteq> make_key L r \<longrightarrow>
                 map_of (cache (snd (get L c r now now'))) k = map_of (cache c) k)
          \<and> hits (snd (get L c r now now')) = hits c + 1
          \<and> misses (snd (get L c r now now')) = misses c)"
  using assms by (simp add: get_def Let_def delete_conv' update_conv')


theorem get_expiry_and_hit_witness:
  "enabled two_entries
   \<and> map_of (cache two_entries) (make_key toy_lib (req_of ''a'')) = Some \<lparr>data = JInt 0, ts = 1\<rparr>
   \<and> real_of_int (ttl two_entries) < float_sub toy_lib 100 (ts \<lparr>data = JInt 0, ts = 1\<rparr>)
   \<and> \<not> real_of_int (ttl two_entries) < float_sub toy_lib 30 (ts \<lparr>data = JInt 0, ts = 1\<rparr>)
   \<and> fst (get toy_lib two_entries (req_of ''a'') 100 101) = JNull
   \<and> map_of (cache (snd (get toy_lib two_entries (req_of ''a'') 100 101)))
        (make_key toy_lib (req_of ''a'')) = None
   \<and> misses (snd (get toy_lib two_entries (req_of ''a'') 100 101)) = misses two_entries + 1
   \<and> fst (get toy_lib two_entries (req_of ''a'') 30 31) = JInt 0
   \<and> map_of (cache (snd (get toy_lib two_entries (req_of ''a'') 30 31)))
        (make_key toy_lib (req_of ''a'')) = Some \<lparr>data = JInt 0, ts = 31\<rparr>
   \<and> hits (snd (get toy_lib two_entries (req_of ''a'') 30 31)) = hits two_entries + 1"
proof -
  have h1: "enabled two_entries" by (simp add: two_entries_eq)
  have h2: "map_of (cache two_entries) (make_key toy_lib (req_of ''a''))
              = Some \<lparr>data = JInt 0, ts = 1\<rparr>"
    by (simp add: two_entries_eq toy_key)
  have h3: "real_of_int (ttl two_entries) < float_sub toy_lib 100 (ts \<lparr>data = JInt 0, ts = 1\<rparr>)"
    by (simp add: two_entries_eq toy_lib_def)
  have h4: "\<not> real_of_int (ttl two_entries) < float_sub toy_lib 30 (ts \<lparr>data = JInt 0, ts = 1\<rparr>)"
    by (simp add: two_entries_eq toy_lib_def)
  from get_expiry_and_hit [OF h1 h2, of 100 101] h3
       get_expiry_and_hit [OF h1 h2, of 30 31] h4 h1 h2
  show ?thesis by simp
qed

section \<open>compress_messages: lemmas and claims\<close>

lemma same_but_refl: "same_but k d d"
  by (simp add: same_but_def list_all2_same)

lemma same_but_update: "same_but k d (AList.update k v d) \<or> map_of d k = None"
  by (induction d) (auto simp: same_but_def list_all2_same)

lemma same_but_update_present:
  "map_of d k = Some w \<Longrightarrow> same_but k d (AList.update k v d)"
  using same_but_update [of k d v] by simp

lemma same_but_map_of:
  "same_but k d d' \<Longrightarrow> k' \<noteq> k \<Longrightarrow> map_of d' k' = map_of d k'"
  unfolding same_but_def
  by (induction d d' rule: list_all2_induct) (auto split: prod.splits)

lemma same_but_keys: "same_but k d d' \<Longrightarrow> map fst d' = map fst d"
  unfolding same_but_def
  by (induction d d' rule: list_all2_induct) auto

lemma part_frame_refl: "part_frame p p"
  by (auto simp: part_frame_def is_text_part_def same_but_refl split: json.splits)

lemma content_frame_refl: "content_frame v v"
  by (cases v) (auto simp: content_frame_def list_all2_same part_frame_refl)

lemma msg_frame_refl: "msg_frame m m"
  by (simp add: msg_frame_def list_all2_same content_frame_refl)

lemma msg_frame_update:
  "map_of m ''content'' = Some v \<Longrightarrow> content_frame v v' \<Longrightarrow>
   msg_frame m (AList.update ''content'' v' m)"
proof (induction m)
  case Nil
  then show ?case by simp
next
  case (Cons x xs)
  show ?case
  proof (cases "fst x = ''content''")
    case True
    with Cons.prems have "snd x = v" by (cases x) auto
    with True Cons.prems(2) show ?thesis
      using msg_frame_refl [of xs] by (cases x) (auto simp: msg_frame_def)
  next
    case False
    with Cons show ?thesis by (cases x) (auto simp: msg_frame_def)
  qed
qed

lemma msg_frame_map_of:
  "msg_frame m m' \<Longrightarrow> k \<noteq> ''content'' \<Longrightarrow> map_of m' k = map_of m k"
  unfolding msg_frame_def
  by (induction m m' rule: list_all2_induct) (auto split: prod.splits if_splits)

lemma msg_frame_keys: "msg_frame m m' \<Longrightarrow> map fst m' = map fst m"
  unfolding msg_frame_def
  by (induction m m' rule: list_all2_induct) auto

lemma compress_part_frame:
  "compress_part L tc part = (Inr part', tc') \<Longrightarrow> part_frame part part'"
  by (auto simp: compress_part_def part_frame_def is_text_part_def Let_def
        same_but_update_present split: json.splits option.splits if_splits)

lemma compress_parts_frame:
  "compress_parts L tc parts = (Inr parts', tc') \<Longrightarrow> list_all2 part_frame parts parts'"
proof (induction parts arbitrary: tc parts' tc')
  case Nil
  then show ?case by simp
next
  case (Cons p ps)
  from Cons.prems obtain p' tc1 ps' where
    a: "compress_part L tc p = (Inr p', tc1)" and
    b: "compress_parts L tc1 ps = (Inr ps', tc')" and c: "parts' = p' # ps'"
    by (auto split: prod.splits sum.splits)
  from compress_part_frame [OF a] Cons.IH [OF b] c show ?case by simp
qed

lemma compress_msg_frame:
  "compress_msg L tc msg = (Inr msg', tc') \<Longrightarrow> msg_frame msg msg'"
  by (auto simp: compress_msg_def Let_def content_frame_def msg_frame_refl
        intro!: msg_frame_update dest: compress_parts_frame
        split: option.splits json.splits prod.splits sum.splits)

lemma compress_msgs_frame:
  "compress_msgs L tc msgs = (Inr out, tc') \<Longrightarrow> list_all2 msg_frame msgs out"
proof (induction msgs arbitrary: tc out tc')
  case Nil
  then show ?case by simp
next
  case (Cons m ms)
  from Cons.prems obtain m' tc1 ms' where
    a: "compress_msg L tc m = (Inr m', tc1)" and
    b: "compress_msgs L tc1 ms = (Inr ms', tc')" and c: "out = m' # ms'"
    by (auto split: prod.splits sum.splits)
  from compress_msg_frame [OF a] Cons.IH [OF b] c show ?case by simp
qed

lemma dicts_of_map_JObj: "dicts_of (map JObj msgs) = Some msgs"
  by (induction msgs) auto

lemma normalize_ab: "normalize_whitespace ''a  b'' = ''a b''"
  by (simp add: normalize_whitespace_def)

lemma normalize_cd: "normalize_whitespace ''c  d'' = ''c d''"
  by (simp add: normalize_whitespace_def)

lemma compress_msgs0:
  "compress_msgs L (tc_level 1) msgs0 =
     (Inr msgs0', \<lparr>level = 1, original_chars = 8, compressed_chars = 6, calls = 0\<rparr>)"
  by (simp add: msgs0_def msgs0'_def tc_level_def compress_msg_def compress_part_def
        compress_text_def normalize_ab normalize_cd)

lemma compress_messages0:
  "compress_messages L ill0 (tc_level 1) (JArr (map JObj msgs0)) =
     (Inr (JArr (map JObj msgs0')), \<lparr>level = 1, original_chars = 8, compressed_chars = 6, calls = 1\<rparr>)"
  by (simp add: compress_messages_def dicts_of_map_JObj compress_msgs0) (simp add: tc_level_def)

lemma rewrite0:
  "rewrite_messages L ill0 (tc_level 1) chat0 =
     (Inr (Some chat0'), \<lparr>level = 1, original_chars = 8, compressed_chars = 6, calls = 1\<rparr>)"
  by (simp add: rewrite_messages_def chat0_def chat0'_def compress_messages0)

text \<open>
  Claim C6. At level 0 \<open>compress_messages\<close> returns the value it was given, whatever that
  value is, and leaves the counters of the compressor as they were.
\<close>

theorem level_zero_passthrough:
  "level tc = 0 \<Longrightarrow> compress_messages L ill tc messages = (Inr messages, tc)"
  by (simp add: compress_messages_def)

theorem level_zero_passthrough_witness:
  "level (tc_level 0) = 0
   \<and> compress_messages toy_lib ill0 (tc_level 0) (JArr (map JObj msgs0))
       = (Inr (JArr (map JObj msgs0)), tc_level 0)"
proof -
  have h: "level (tc_level 0) = 0" by (simp add: tc_level_def)
  from level_zero_passthrough [OF h] h show ?thesis by simp
qed

text \<open>
  Claim C7. At every level, when \<open>compress_messages\<close> returns on a list of messages, the
  result is a list of as many messages, each with the keys of the original in the same
  order and the same value under every key other than \<open>content\<close> (so \<open>role\<close> is
  preserved); a string content stays a string; in a list content a part that is not a
  dict with \<open>type = "text"\<close> is the same value, and a text part keeps every field other
  than \<open>text\<close>. When the handler rewrites a parsed request, the rewritten request has the
  keys of the original in the same order and the same value under every key other than
  \<open>messages\<close>.
\<close>

theorem compression_frame:
  "(compress_messages L ill tc (JArr (map JObj msgs)) = (Inr res, tc') \<longrightarrow>
      (\<exists>out. res = JArr (map JObj out)
         \<and> list_all2 msg_frame msgs out
         \<and> (\<forall>i < length msgs. \<forall>k. k \<noteq> ''content'' \<longrightarrow>
               map_of (out ! i) k = map_of (msgs ! i) k)))
   \<and> (rewrite_messages L ill tc d = (Inr (Some d'), tc') \<longrightarrow>
        same_but ''messages'' d d'
      \<and> (\<forall>k. k \<noteq> ''messages'' \<longrightarrow> map_of d' k = map_of d k))"
proof (intro conjI impI)
  assume a: "compress_messages L ill tc (JArr (map JObj msgs)) = (Inr res, tc')"
  have "\<exists>out. res = JArr (map JObj out) \<and> list_all2 msg_frame msgs out"
  proof (cases "level tc = 0")
    case True
    with a have "res = JArr (map JObj msgs)" by (simp add: compress_messages_def)
    moreover have "list_all2 msg_frame msgs msgs"
      by (simp add: list_all2_same msg_frame_refl)
    ultimately show ?thesis by blast
  next
    case False
    with a obtain out tc1 where b: "compress_msgs L tc msgs = (Inr out, tc1)"
      and r: "res = JArr (map JObj out)"
      by (auto simp: compress_messages_def dicts_of_map_JObj split: prod.splits sum.splits)
    from compress_msgs_frame [OF b] r show ?thesis by blast
  qed
  then obtain out where r: "res = JArr (map JObj out)" and f: "list_all2 msg_frame msgs out"
    by blast
  have "\<forall>i < length msgs. \<forall>k. k \<noteq> ''content'' \<longrightarrow> map_of (out ! i) k = map_of (msgs ! i) k"
    using f by (auto simp: list_all2_conv_all_nth intro: msg_frame_map_of)
  with r f show "\<exists>out. res = JArr (map JObj out)
         \<and> list_all2 msg_frame msgs out
         \<and> (\<forall>i < length msgs. \<forall>k. k \<noteq> ''content'' \<longrightarrow>
               map_of (out ! i) k = map_of (msgs ! i) k)"
    by blast
next
  assume a: "rewrite_messages L ill tc d = (Inr (Some d'), tc')"
  then obtain messages compressed where m: "map_of d ''messages'' = Some messages"
    and d': "d' = AList.update ''messages'' compressed d"
    by (auto simp: rewrite_messages_def split: option.splits prod.splits sum.splits)
  show "same_but ''messages'' d d'"
    using m d' by (simp add: same_but_update_present)
  then show "\<forall>k. k \<noteq> ''messages'' \<longrightarrow> map_of d' k = map_of d k"
    by (simp add: same_but_map_of)
qed

theorem compression_frame_witness:
  "compress_messages toy_lib ill0 (tc_level 1) (JArr (map JObj msgs0))
     = (Inr (JArr (map JObj msgs0')), \<lparr>level = 1, original_chars = 8, compressed_chars = 6, calls = 1\<rparr>)
   \<and> rewrite_messages toy_lib ill0 (tc_level 1) chat0
     = (Inr (Some chat0'), \<lparr>level = 1, original_chars = 8, compressed_chars = 6, calls = 1\<rparr>)
   \<and> list_all2 msg_frame msgs0 msgs0'
   \<and> map_of (msgs0' ! 0) ''role'' = map_of (msgs0 ! 0) ''role''
   \<and> map_of (msgs0' ! 0) ''name'' = map_of (msgs0 ! 0) ''name''
   \<and> same_but ''messages'' chat0 chat0'
   \<and> map_of chat0' ''user'' = map_of chat0 ''user''"
proof -
  let ?tc = "\<lparr>level = 1, original_chars = 8, compressed_chars = 6, calls = 1\<rparr>"
  have h1: "compress_messages toy_lib ill0 (tc_level 1) (JArr (map JObj msgs0))
     = (Inr (JArr (map JObj msgs0')), ?tc)"
    by (rule compress_messages0)
  have h2: "rewrite_messages toy_lib ill0 (tc_level 1) chat0 = (Inr (Some chat0'), ?tc)"
    by (rule rewrite0)
  note inst = compression_frame [of toy_lib ill0 "tc_level 1" msgs0 "JArr (map JObj msgs0')" ?tc
      chat0 chat0']
  from inst h1 obtain out where o: "JArr (map JObj msgs0') = JArr (map JObj out)"
    and f: "list_all2 msg_frame msgs0 out"
    and k: "\<forall>i < length msgs0. \<forall>k. k \<noteq> ''content'' \<longrightarrow> map_of (out ! i) k = map_of (msgs0 ! i) k"
    by blast
  from o have "map JObj out = map JObj msgs0'" by simp
  then have out: "out = msgs0'" by (simp add: inj_map_eq_map inj_on_def)
  have l: "0 < length msgs0" by (simp add: msgs0_def)
  from k l have r1: "map_of (msgs0' ! 0) ''role'' = map_of (msgs0 ! 0) ''role''"
    unfolding out by simp
  from k l have r2: "map_of (msgs0' ! 0) ''name'' = map_of (msgs0 ! 0) ''name''"
    unfolding out by simp
  from inst h2 have s: "same_but ''messages'' chat0 chat0'"
    and u: "\<forall>k. k \<noteq> ''messages'' \<longrightarrow> map_of chat0' k = map_of chat0 k"
    by blast+
  from u have r3: "map_of chat0' ''user'' = map_of chat0 ''user''" by simp
  from h1 h2 f r1 r2 s r3 show ?thesis unfolding out by blast
qed

section \<open>proxy: lemmas and claims\<close>

lemma forward_streaming:
  "truthy (is_streaming s) \<Longrightarrow>
   rcache (final (forward L upstream clk target req is_chat s)) = rcache s
   \<and> (\<exists>evs. events (final (forward L upstream clk target req is_chat s)) = events s @ evs
         \<and> (\<forall>ev \<in> set evs. \<not> is_cache_event ev))"
  by (auto simp: forward_def Let_def split: sum.splits)

lemma try_block_streaming:
  assumes "json_loads L (cur_body s) = Inr (JObj d)"
    and "truthy (dict_get d ''stream'' (JBool False))"
    and "try_block L ill clk s = (out, s')"
  shows "rcache s' = rcache s \<and> events s' = events s
       \<and> is_streaming s' = dict_get d ''stream'' (JBool False)
       \<and> (\<forall>cached. out \<noteq> Returned cached)"
  using assms
  by (auto simp: try_block_def Let_def split: prod.splits sum.splits option.splits)

text \<open>
  Claim C4. For a request whose body parses to a dict in which \<open>stream\<close> is present and
  true (\<open>json.loads\<close> raises on the empty body, so the body is not empty), the handler
  calls neither \<open>cache.get\<close> nor \<open>cache.put\<close>, and the cache is at the end what it was
  at the start: whatever the path and the method, the temperature and the other fields,
  the level, the state of the cache, and whatever the transport returns or raises.
\<close>

theorem streaming_never_touches_cache:
  assumes parsed: "json_loads L (req_body req) = Inr (JObj d)"
    and nonempty: "req_body req \<noteq> []"
    and stream: "map_of d ''stream'' = Some v" "truthy v"
  shows "rcache (final (proxy L ill upstream clk target tc c req)) = c
       \<and> (\<forall>ev \<in> set (events (final (proxy L ill upstream clk target tc c req))).
            \<not> is_cache_event ev)"
proof -
  let ?chat = "endswith (req_path req) ''/chat/completions'' \<and> req_method req = ''POST''"
  let ?s0 = "\<lparr>is_streaming = JBool False, cur_body = req_body req, compressor = tc, rcache = c,
               events = []\<rparr>"
  from stream have t: "truthy (dict_get d ''stream'' (JBool False))"
    by (simp add: dict_get_def)
  show ?thesis
  proof (cases ?chat)
    case False
    then have "proxy L ill upstream clk target tc c req
                 = forward L upstream clk target req False ?s0"
      by (auto simp: proxy_def Let_def)
    then show ?thesis
      by (auto simp: forward_def Let_def split: sum.splits)
  next
    case True
    obtain out s where tb: "try_block L ill clk ?s0 = (out, s)"
      by (cases "try_block L ill clk ?s0")
    from parsed have p: "json_loads L (cur_body ?s0) = Inr (JObj d)" by simp
    from try_block_streaming [OF p t tb]
    have s: "rcache s = c" "events s = []" "truthy (is_streaming s)"
      and nr: "\<forall>cached. out \<noteq> Returned cached"
      using t by auto
    from forward_streaming [OF s(3), of L upstream clk target req True] s
    have fw: "rcache (final (forward L upstream clk target req True s)) = c
       \<and> (\<forall>ev \<in> set (events (final (forward L upstream clk target req True s))).
            \<not> is_cache_event ev)"
      by auto
    show ?thesis
    proof (cases out)
      case (Returned cached)
      with nr show ?thesis by simp
    next
      case Completed
      with True nonempty tb fw show ?thesis by (simp add: proxy_def Let_def)
    next
      case (Raised e)
      with True nonempty tb fw s show ?thesis by (simp add: proxy_def Let_def)
    qed
  qed
qed

theorem streaming_never_touches_cache_witness:
  "json_loads lib_chat0 (req_body (chat_req ''{}'')) = Inr (JObj chat0)
   \<and> req_body (chat_req ''{}'') \<noteq> []
   \<and> map_of chat0 ''stream'' = Some (JBool True) \<and> truthy (JBool True)
   \<and> rcache (final (proxy lib_chat0 ill0 up0 clk0 ''http://t'' (tc_level 1) (init True 60 200)
                      (chat_req ''{}''))) = init True 60 200
   \<and> filter is_cache_event (events (final (proxy lib_chat0 ill0 up0 clk0 ''http://t'' (tc_level 1)
                      (init True 60 200) (chat_req ''{}'')))) = []
   \<and> answer (proxy lib_chat0 ill0 up0 clk0 ''http://t'' (tc_level 1) (init True 60 200)
                      (chat_req ''{}'')) = Inr (StreamingResponse 200 [] ''ok'')"
proof -
  have h1: "json_loads lib_chat0 (req_body (chat_req ''{}'')) = Inr (JObj chat0)"
    by (simp add: lib_chat0_def)
  have h2: "req_body (chat_req ''{}'') \<noteq> []" by (simp add: chat_req_def)
  have h3: "map_of chat0 ''stream'' = Some (JBool True)" by (simp add: chat0_def)
  have h4: "truthy (JBool True)" by simp
  have rw: "rewrite_messages lib_chat0 ill0 (tc_level 1) chat0 =
     (Inr (Some chat0'), \<lparr>level = 1, original_chars = 8, compressed_chars = 6, calls = 1\<rparr>)"
    by (rule rewrite0)
  have ld: "json_loads lib_chat0 b = Inr (JObj chat0)" for b
    by (simp add: lib_chat0_def)
  have st: "dict_get chat0 ''stream'' (JBool False) = JBool True"
    by (simp add: dict_get_def h3)
  have tb: "try_block lib_chat0 ill0 clk0
              \<lparr>is_streaming = JBool False, cur_body = ''{}'', compressor = tc_level 1,
                 rcache = init True 60 200, events = []\<rparr>
            = (Completed,
               \<lparr>is_streaming = JBool True, cur_body = json_dumps lib_chat0 (JObj chat0'),
                 compressor = \<lparr>level = 1, original_chars = 8, compressed_chars = 6, calls = 1\<rparr>,
                 rcache = init True 60 200, events = []\<rparr>)"
    by (simp add: try_block_def ld st rw Let_def)
  have a: "answer (proxy lib_chat0 ill0 up0 clk0 ''http://t'' (tc_level 1) (init True 60 200)
                      (chat_req ''{}'')) = Inr (StreamingResponse 200 [] ''ok'')"
    by (simp add: proxy_def tb forward_def Let_def chat_req_def endswith_def up0_def)
  from streaming_never_touches_cache [OF h1 h2 h3 h4] h1 h2 h3 h4 a show ?thesis
    by (simp add: filter_empty_conv)
qed

text \<open>
  Claim C5, evaluated at a body that is not valid JSON because it is not text. A POST to
  \<open>v1/chat/completions\<close> with the one-byte body \<open>0xFF\<close>: \<open>json.loads\<close> raises
  \<open>UnicodeDecodeError\<close>, which \<open>except (json.JSONDecodeError, KeyError)\<close> does not catch;
  the exception reaches the caller and nothing is sent upstream.
\<close>

theorem invalid_utf8_body_raises:
  "json_loads lib_bytes [CHR 0xFF] = Inl UnicodeDecodeError
   \<and> answer (proxy lib_bytes ill0 up0 clk0 ''http://t'' (tc_level 1) (init True 60 200)
               (chat_req [CHR 0xFF])) = Inl UnicodeDecodeError
   \<and> events (final (proxy lib_bytes ill0 up0 clk0 ''http://t'' (tc_level 1) (init True 60 200)
               (chat_req [CHR 0xFF]))) = []"
  by (simp add: proxy_def try_block_def Let_def chat_req_def endswith_def lib_bytes_def
        caught_parse_def)

text \<open>
  For a body on which \<open>json.loads\<close> raises \<open>JSONDecodeError\<close> the handler does fail open:
  the call to the target carries the body as it came in and the caller gets the target's
  response.
\<close>

lemma fail_open_on_JSONDecodeError:
  assumes "json_loads L (req_body req) = Inl JSONDecodeError"
    and "\<And>b e. json_loads L b = Inl e \<Longrightarrow> caught_store e"
    and "upstream \<lparr>u_method = req_method req, u_url = target @ ''/'' @ req_path req,
           u_headers = pop_all [''host'', ''content-length'', ''transfer-encoding''] (req_headers req),
           u_content = req_body req, u_stream = False\<rparr> = Inr resp"
  shows "answer (proxy L ill upstream clk target tc c req)
           = Inr (Response (status_code resp)
                   (pop_all [''content-encoding'', ''transfer-encoding'', ''content-length'']
                      (r_headers resp))
                   (content resp))"
  using assms
  by (auto simp: proxy_def try_block_def forward_def store_response_def Let_def caught_parse_def
        split: sum.splits prod.splits)

section \<open>The text passes: lemmas and claims\<close>

lemma dedup_loop_unfold:
  "fst st < length lines \<Longrightarrow> dedup_loop L lines st = dedup_loop L lines (dedup_step L lines st)"
  by (subst dedup_loop.simps) simp

lemma dedup_loop_done: "\<not> fst st < length lines \<Longrightarrow> dedup_loop L lines st = st"
  by (subst dedup_loop.simps) simp

lemma split_nl_nonempty: "split_nl s \<noteq> []"
  by (induction s) (auto split: list.splits)

lemma join_nl_Cons_Cons: "join_nl ((c # l) # ls) = c # join_nl (l # ls)"
  by (cases ls) auto

lemma join_split_nl: "join_nl (split_nl s) = s"
proof (induction s)
  case Nil
  then show ?case by simp
next
  case (Cons c cs)
  obtain l ls where sp: "split_nl cs = l # ls"
    using split_nl_nonempty [of cs] by (cases "split_nl cs") auto
  with Cons show ?case by (auto simp: join_nl_Cons_Cons)
qed

lemma dedup_step_short:
  "\<not> long_window lines i \<Longrightarrow>
   dedup_step L lines (i, seen, out) = (i + 1, seen, out @ [lines ! i])"
  by (auto simp: dedup_step_def long_window_def Let_def)

lemma dedup_loop_no_long:
  "\<forall>j. \<not> long_window lines j \<Longrightarrow> fst st \<le> length lines \<Longrightarrow>
   snd (snd st) = take (fst st) lines \<Longrightarrow> snd (snd (dedup_loop L lines st)) = lines"
proof (induction L lines st rule: dedup_loop.induct)
  case (1 L lines st)
  obtain i seen out where st: "st = (i, seen, out)" by (cases st)
  show ?case
  proof (cases "i < length lines")
    case True
    from "1.prems" have "\<not> long_window lines i" by simp
    then have step: "dedup_step L lines st = (i + 1, seen, out @ [lines ! i])"
      unfolding st by (rule dedup_step_short)
    have "snd (snd (dedup_loop L lines (dedup_step L lines st))) = lines"
    proof (rule "1.IH")
      show "fst st < length lines" using True st by simp
      show "\<forall>j. \<not> long_window lines j" using "1.prems" by simp
      show "fst (dedup_step L lines st) \<le> length lines" using True step by simp
      show "snd (snd (dedup_step L lines st)) = take (fst (dedup_step L lines st)) lines"
        using True "1.prems" st step by (simp add: take_Suc_conv_app_nth)
    qed
    with True st show ?thesis by (simp add: dedup_loop_unfold)
  next
    case False
    with "1.prems" st show ?thesis by (simp add: dedup_loop_done)
  qed
qed

lemma dedup_step_seen:
  "seen_ok L lines (fst (snd st)) \<Longrightarrow> seen_ok L lines (fst (snd (dedup_step L lines st)))"
  by (cases st) (auto simp: dedup_step_def seen_ok_def long_window_def Let_def)

lemma dedup_loop_seen:
  "seen_ok L lines (fst (snd st)) \<Longrightarrow> seen_ok L lines (fst (snd (dedup_loop L lines st)))"
proof (induction L lines st rule: dedup_loop.induct)
  case (1 L lines st)
  show ?case
  proof (cases "fst st < length lines")
    case True
    from "1.IH" [OF True dedup_step_seen [OF "1.prems"]] True
    show ?thesis by (simp add: dedup_loop_unfold)
  next
    case False
    with "1.prems" show ?thesis by (simp add: dedup_loop_done)
  qed
qed

text \<open>
  Claim C9. The lines of a text are the pieces of \<open>text.split('\n')\<close>. On a text with
  fewer than 20 lines \<open>_deduplicate_blocks\<close> returns the text. In every state of the loop,
  at an index where there is no window of three lines longer than 100 characters, the
  body of the loop appends the line at the index, moves on by one, and leaves \<open>seen\<close>
  as it was: nothing is recorded and no marker is written. Every fingerprint in \<open>seen\<close>
  at the end of the loop is that of a window longer than 100 characters. On a text with
  no such window the pass returns the text.
\<close>

theorem dedup_thresholds:
  "(length (split_nl text0) < 20 \<longrightarrow> deduplicate_blocks L text0 = text0)
   \<and> (\<forall>i seen out. i < length lines \<and> \<not> long_window lines i \<longrightarrow>
         dedup_step L lines (i, seen, out) = (i + 1, seen, out @ [lines ! i]))
   \<and> (\<forall>h \<in> set (fst (snd (dedup_loop L lines (0, [], [])))).
         \<exists>i. long_window lines i \<and> h = block_hash L (block_at lines i))
   \<and> ((\<forall>i. \<not> long_window (split_nl text0) i) \<longrightarrow> deduplicate_blocks L text0 = text0)"
proof (intro conjI impI allI)
  assume "length (split_nl text0) < 20"
  then show "deduplicate_blocks L text0 = text0" by (simp add: deduplicate_blocks_def)
next
  fix i seen out
  assume "i < length lines \<and> \<not> long_window lines i"
  then show "dedup_step L lines (i, seen, out) = (i + 1, seen, out @ [lines ! i])"
    by (simp add: dedup_step_short)
next
  have "seen_ok L lines (fst (snd (0::nat, [] :: string list, [] :: string list)))"
    by (simp add: seen_ok_def)
  from dedup_loop_seen [OF this]
  show "\<forall>h \<in> set (fst (snd (dedup_loop L lines (0, [], [])))).
         \<exists>i. long_window lines i \<and> h = block_hash L (block_at lines i)"
    by (simp add: seen_ok_def)
next
  assume a: "\<forall>i. \<not> long_window (split_nl text0) i"
  have "snd (snd (dedup_loop L (split_nl text0) (0, [], []))) = split_nl text0"
    by (rule dedup_loop_no_long [OF a]) simp_all
  then show "deduplicate_blocks L text0 = text0"
    by (simp add: deduplicate_blocks_def Let_def join_split_nl)
qed

lemma block_long: "block_at long_lines 0 = replicate 101 (CHR ''a'') @ [NL] @ ''b'' @ [NL] @ ''c''"
  by (simp add: block_at_def long_lines_def)

lemma long_window_0: "long_window long_lines 0"
  by (simp add: long_window_def block_long) (simp add: long_lines_def)

lemma no_window_1: "\<not> long_window long_lines 1"
  by (simp add: long_window_def long_lines_def)

lemma hash_long: "block_hash toy_lib (block_at long_lines 0) = ''aaaaaaaa''"
  by (simp add: block_hash_def toy_lib_def block_long numeral_eq_Suc)

lemma loop_long:
  "dedup_loop toy_lib long_lines (0, [], []) = (3, [''aaaaaaaa''], long_lines)"
proof -
  have l: "length long_lines = 3" by (simp add: long_lines_def)
  have s0: "dedup_step toy_lib long_lines (0, [], []) = (1, [''aaaaaaaa''], [long_lines ! 0])"
    using long_window_0 by (simp add: dedup_step_def l hash_long Let_def long_window_def)
  have s1: "dedup_step toy_lib long_lines (1, [''aaaaaaaa''], [long_lines ! 0])
              = (2, [''aaaaaaaa''], [long_lines ! 0, long_lines ! 1])"
    by (simp add: dedup_step_def l)
  have s2: "dedup_step toy_lib long_lines (2, [''aaaaaaaa''], [long_lines ! 0, long_lines ! 1])
              = (3, [''aaaaaaaa''], [long_lines ! 0, long_lines ! 1, long_lines ! 2])"
    by (simp add: dedup_step_def l)
  have e: "[long_lines ! 0, long_lines ! 1, long_lines ! 2] = long_lines"
    by (simp add: long_lines_def)
  have "dedup_loop toy_lib long_lines (0, [], [])
          = dedup_loop toy_lib long_lines (1, [''aaaaaaaa''], [long_lines ! 0])"
    using dedup_loop_unfold [of "(0, [], [])" long_lines toy_lib] l s0 by simp
  also have "\<dots> = dedup_loop toy_lib long_lines (2, [''aaaaaaaa''], [long_lines ! 0, long_lines ! 1])"
    using dedup_loop_unfold [of "(1, [''aaaaaaaa''], [long_lines ! 0])" long_lines toy_lib] l s1
    by simp
  also have "\<dots> = dedup_loop toy_lib long_lines
                      (3, [''aaaaaaaa''], [long_lines ! 0, long_lines ! 1, long_lines ! 2])"
    using dedup_loop_unfold [of "(2, [''aaaaaaaa''], [long_lines ! 0, long_lines ! 1])"
            long_lines toy_lib] l s2
    by simp
  also have "\<dots> = (3, [''aaaaaaaa''], [long_lines ! 0, long_lines ! 1, long_lines ! 2])"
    using dedup_loop_done [of "(3, [''aaaaaaaa''], [long_lines ! 0, long_lines ! 1, long_lines ! 2])"
            long_lines toy_lib] l
    by simp
  finally show ?thesis by (simp only: e)
qed

theorem dedup_thresholds_witness:
  "length (split_nl (''x'' @ [NL] @ ''y'')) < 20
   \<and> deduplicate_blocks toy_lib (''x'' @ [NL] @ ''y'') = ''x'' @ [NL] @ ''y''
   \<and> 0 < length short_lines
   \<and> \<not> long_window short_lines 0
   \<and> dedup_step toy_lib short_lines (0, [''aaaaaaaa''], []) = (1, [''aaaaaaaa''], [''a''])
   \<and> 1 < length long_lines
   \<and> \<not> long_window long_lines 1
   \<and> dedup_step toy_lib long_lines (1, [], []) = (2, [], [''b''])
   \<and> ''aaaaaaaa'' \<in> set (fst (snd (dedup_loop toy_lib long_lines (0, [], []))))
   \<and> (\<exists>i. long_window long_lines i \<and> ''aaaaaaaa'' = block_hash toy_lib (block_at long_lines i))
   \<and> (\<forall>i. \<not> long_window (split_nl (''x'' @ [NL] @ ''y'')) i)"
proof -
  let ?t = "''x'' @ [NL] @ ''y''"
  have h1: "length (split_nl ?t) < 20" by simp
  have h2: "\<not> long_window long_lines 1" by (rule no_window_1)
  have h3: "''aaaaaaaa'' \<in> set (fst (snd (dedup_loop toy_lib long_lines (0, [], []))))"
    by (simp add: loop_long)
  have h4: "\<forall>i. \<not> long_window (split_nl ?t) i" by (simp add: long_window_def)
  have g1: "0 < length short_lines" by (simp add: short_lines_def)
  have g2: "\<not> long_window short_lines 0"
    by (simp add: long_window_def block_at_def short_lines_def)
  from dedup_thresholds [of ?t toy_lib short_lines] g1 g2
  have "dedup_step toy_lib short_lines (0, [''aaaaaaaa''], [])
          = (0 + 1, [''aaaaaaaa''], [] @ [short_lines ! 0])"
    by blast
  then have g3: "dedup_step toy_lib short_lines (0, [''aaaaaaaa''], []) = (1, [''aaaaaaaa''], [''a''])"
    by (simp add: short_lines_def)
  note inst = dedup_thresholds [of ?t toy_lib long_lines]
  from inst h1 have c1: "deduplicate_blocks toy_lib ?t = ?t" by blast
  have h2': "1 < length long_lines" by (simp add: long_lines_def)
  from inst h2 h2' have "dedup_step toy_lib long_lines (1, [], []) = (1 + 1, [], [] @ [long_lines ! 1])"
    by blast
  then have c2: "dedup_step toy_lib long_lines (1, [], []) = (2, [], [''b''])"
    by (simp add: long_lines_def)
  from inst h3 have c3: "\<exists>i. long_window long_lines i
      \<and> ''aaaaaaaa'' = block_hash toy_lib (block_at long_lines i)"
    by blast
  from h1 c1 g1 g2 g3 h2 h2' c2 h3 c3 h4 show ?thesis by blast
qed

lemma split_nl_Cons_other:
  "c \<noteq> NL \<Longrightarrow> split_nl (c # cs) = (c # hd (split_nl cs)) # tl (split_nl cs)"
  using split_nl_nonempty [of cs] by (cases "split_nl cs") auto

lemma split_nl_no_newline: "NL \<notin> set a \<Longrightarrow> split_nl a = [a]"
  by (induction a) (auto split: list.splits)

lemma split_nl_line_append:
  "NL \<notin> set a \<Longrightarrow> split_nl (a @ NL # b) = a # split_nl b"
  by (induction a) (auto split: list.splits)

lemma split_nl_append_nl: "split_nl (a @ NL # b) = split_nl a @ split_nl b"
proof (induction a)
  case Nil
  then show ?case by simp
next
  case (Cons c cs)
  show ?case
  proof (cases "c = NL")
    case True
    with Cons show ?thesis by simp
  next
    case False
    obtain l ls where sp: "split_nl cs = l # ls"
      using split_nl_nonempty [of cs] by (cases "split_nl cs") auto
    with False Cons show ?thesis by simp
  qed
qed

lemma takeWhile_not_nl: "NL \<notin> set (takeWhile (\<lambda>x. x \<noteq> NL) s)"
  by (induction s) auto

lemma sub_comment_inside:
  "sub_comment st False s =
     takeWhile (\<lambda>x. x \<noteq> NL) s @
     (case dropWhile (\<lambda>x. x \<noteq> NL) s of [] \<Rightarrow> [] | n # r \<Rightarrow> NL # sub_comment st True r)"
  by (induction s) auto

lemma sub_comment_nomatch:
  "\<not> st (dropWhile is_space s) \<Longrightarrow>
   sub_comment st True s =
     takeWhile (\<lambda>x. x \<noteq> NL) s @
     (case dropWhile (\<lambda>x. x \<noteq> NL) s of [] \<Rightarrow> [] | n # r \<Rightarrow> NL # sub_comment st True r)"
  by (cases s) (auto simp: sub_comment_inside)

lemma sub_comment_match:
  "st (dropWhile is_space s) \<Longrightarrow> \<not> st [] \<Longrightarrow>
   sub_comment st True s =
     (case dropWhile (\<lambda>x. x \<noteq> NL) (dropWhile is_space s) of
        [] \<Rightarrow> [] | n # r \<Rightarrow> sub_comment st True r)"
  by (cases s) auto

lemma dropWhile_nl_head: "dropWhile (\<lambda>x. x \<noteq> NL) s = n # r \<Longrightarrow> n = NL"
  using hd_dropWhile [of "\<lambda>x. x \<noteq> NL" s] by auto

lemma dropWhile_nl_length: "dropWhile (\<lambda>x. x \<noteq> NL) s = n # r \<Longrightarrow> length r < length s"
  using length_dropWhile_le [of "\<lambda>x. x \<noteq> NL" s] by auto

lemma match_rest_length:
  "dropWhile (\<lambda>x. x \<noteq> NL) (dropWhile is_space s) = n # r \<Longrightarrow> length r < length s"
  using dropWhile_nl_length [of "dropWhile is_space s" n r] length_dropWhile_le [of is_space s]
  by simp

lemma line_split:
  "dropWhile (\<lambda>x. x \<noteq> NL) s = n # r \<Longrightarrow> s = takeWhile (\<lambda>x. x \<noteq> NL) s @ NL # r"
  using takeWhile_dropWhile_id [of "\<lambda>x. x \<noteq> NL" s] dropWhile_nl_head [of s n r] by simp

lemma line_whole: "dropWhile (\<lambda>x. x \<noteq> NL) s = [] \<Longrightarrow> takeWhile (\<lambda>x. x \<noteq> NL) s = s"
  using takeWhile_dropWhile_id [of "\<lambda>x. x \<noteq> NL" s] by simp

lemma first_line_not_comment:
  assumes a1: "\<not> st []"
    and a2: "\<And>x rest. st x \<Longrightarrow> rest = [] \<or> hd rest = NL \<Longrightarrow> st (x @ rest)"
    and nomatch: "\<not> st (dropWhile is_space (l @ rest))"
    and rest: "rest = [] \<or> hd rest = NL"
  shows "\<not> st (dropWhile is_space l)"
proof
  assume s: "st (dropWhile is_space l)"
  with a1 have "dropWhile is_space l \<noteq> []" by metis
  then have "\<exists>x \<in> set l. \<not> is_space x" by (simp add: dropWhile_eq_Nil_conv)
  then have "dropWhile is_space (l @ rest) = dropWhile is_space l @ rest"
    by (auto simp: dropWhile_append1)
  with a2 [OF s rest] nomatch show False by simp
qed

lemma no_comment_lines:
  assumes a1: "\<not> st []"
    and a2: "\<And>x rest. st x \<Longrightarrow> rest = [] \<or> hd rest = NL \<Longrightarrow> st (x @ rest)"
  shows "\<forall>l \<in> set (split_nl (sub_comment st True s)). \<not> st (dropWhile is_space l)"
proof (induction s rule: length_induct)
  case (1 s)
  show ?case
  proof (cases "st (dropWhile is_space s)")
    case True
    show ?thesis
    proof (cases "dropWhile (\<lambda>x. x \<noteq> NL) (dropWhile is_space s)")
      case Nil
      have "sub_comment st True s = []"
        unfolding sub_comment_match [of st s, OF True a1] Nil by simp
      with a1 show ?thesis by simp
    next
      case (Cons n r)
      from match_rest_length [OF Cons] "1.IH"
      have "\<forall>l \<in> set (split_nl (sub_comment st True r)). \<not> st (dropWhile is_space l)" by blast
      moreover have "sub_comment st True s = sub_comment st True r"
        unfolding sub_comment_match [of st s, OF True a1] Cons by simp
      ultimately show ?thesis by simp
    qed
  next
    case False
    let ?l0 = "takeWhile (\<lambda>x. x \<noteq> NL) s"
    show ?thesis
    proof (cases "dropWhile (\<lambda>x. x \<noteq> NL) s")
      case Nil
      have "sub_comment st True s = s"
        unfolding sub_comment_nomatch [of st s, OF False] Nil by (simp add: line_whole [OF Nil])
      moreover have "NL \<notin> set s" using Nil by auto
      ultimately show ?thesis using False by (simp add: split_nl_no_newline)
    next
      case (Cons n r)
      from dropWhile_nl_length [OF Cons] "1.IH"
      have ih: "\<forall>l \<in> set (split_nl (sub_comment st True r)). \<not> st (dropWhile is_space l)" by blast
      have s: "s = ?l0 @ NL # r" by (rule line_split [OF Cons])
      have nm: "\<not> st (dropWhile is_space (?l0 @ NL # r))" using False s by simp
      have l0: "\<not> st (dropWhile is_space ?l0)"
      proof (rule first_line_not_comment [of st ?l0 "NL # r"])
        show "\<not> st []" by (rule a1)
        show "st x \<Longrightarrow> rest = [] \<or> hd rest = NL \<Longrightarrow> st (x @ rest)" for x rest
          by (rule a2)
        show "\<not> st (dropWhile is_space (?l0 @ NL # r))" by (rule nm)
        show "NL # r = [] \<or> hd (NL # r) = NL" by simp
      qed
      have "sub_comment st True s = ?l0 @ NL # sub_comment st True r"
        using False Cons by (simp add: sub_comment_nomatch)
      then have "split_nl (sub_comment st True s) = ?l0 # split_nl (sub_comment st True r)"
        by (simp add: split_nl_line_append takeWhile_not_nl)
      with ih l0 show ?thesis by simp
    qed
  qed
qed

lemma lines_subset:
  assumes a1: "\<not> st []"
  shows "set (split_nl (sub_comment st True s)) \<subseteq> insert [] (set (split_nl s))"
proof (induction s rule: length_induct)
  case (1 s)
  show ?case
  proof (cases "st (dropWhile is_space s)")
    case True
    let ?rest = "dropWhile is_space s"
    show ?thesis
    proof (cases "dropWhile (\<lambda>x. x \<noteq> NL) ?rest")
      case Nil
      have "sub_comment st True s = []"
        unfolding sub_comment_match [of st s, OF True a1] Nil by simp
      then show ?thesis by simp
    next
      case (Cons n r)
      from match_rest_length [OF Cons] "1.IH"
      have ih: "set (split_nl (sub_comment st True r)) \<subseteq> insert [] (set (split_nl r))" by blast
      have res: "sub_comment st True s = sub_comment st True r"
        unfolding sub_comment_match [of st s, OF True a1] Cons by simp
      have "s = takeWhile is_space s @ ?rest" by simp
      also have "?rest = takeWhile (\<lambda>x. x \<noteq> NL) ?rest @ NL # r" by (rule line_split [OF Cons])
      finally have "s = (takeWhile is_space s @ takeWhile (\<lambda>x. x \<noteq> NL) ?rest) @ NL # r" by simp
      then have "set (split_nl r) \<subseteq> set (split_nl s)"
        using split_nl_append_nl [of "takeWhile is_space s @ takeWhile (\<lambda>x. x \<noteq> NL) ?rest" r]
        by auto
      with ih res show ?thesis by auto
    qed
  next
    case False
    let ?l0 = "takeWhile (\<lambda>x. x \<noteq> NL) s"
    show ?thesis
    proof (cases "dropWhile (\<lambda>x. x \<noteq> NL) s")
      case Nil
      have "sub_comment st True s = s"
        unfolding sub_comment_nomatch [of st s, OF False] Nil by (simp add: line_whole [OF Nil])
      then show ?thesis by auto
    next
      case (Cons n r)
      from dropWhile_nl_length [OF Cons] "1.IH"
      have ih: "set (split_nl (sub_comment st True r)) \<subseteq> insert [] (set (split_nl r))" by blast
      have s: "s = ?l0 @ NL # r" by (rule line_split [OF Cons])
      have "split_nl (?l0 @ NL # r) = ?l0 # split_nl r"
        by (simp add: split_nl_line_append takeWhile_not_nl)
      with s have sp: "split_nl s = ?l0 # split_nl r" by simp
      have "sub_comment st True s = ?l0 @ NL # sub_comment st True r"
        using False Cons by (simp add: sub_comment_nomatch)
      then have "split_nl (sub_comment st True s) = ?l0 # split_nl (sub_comment st True r)"
        by (simp add: split_nl_line_append takeWhile_not_nl)
      with ih sp show ?thesis by auto
    qed
  qed
qed

lemma is_space_hash: "\<not> is_space (CHR ''#'')"
  by (simp add: is_space_def)

lemma is_shebang_Cons: "is_shebang (w # l) \<Longrightarrow> w = CHR ''#''"
  by (simp add: is_shebang_def)

lemma space_prefix_lines:
  "\<forall>c \<in> set ws. is_space c \<Longrightarrow> NL \<notin> set cl \<Longrightarrow> \<not> is_shebang cl \<Longrightarrow>
   \<forall>l \<in> set (split_nl (ws @ cl)). \<not> is_shebang l"
proof (induction ws)
  case Nil
  then show ?case by (simp add: split_nl_no_newline)
next
  case (Cons w ws)
  then have ih: "\<forall>l \<in> set (split_nl (ws @ cl)). \<not> is_shebang l" by simp
  show ?case
  proof (cases "w = NL")
    case True
    with ih show ?thesis by (simp add: is_shebang_def)
  next
    case False
    obtain l ls where sp: "split_nl (ws @ cl) = l # ls"
      using split_nl_nonempty [of "ws @ cl"] by (cases "split_nl (ws @ cl)") auto
    have "is_space w" using Cons.prems(1) by simp
    then have "\<not> is_shebang (w # l)"
      using is_shebang_Cons [of w l] is_space_hash by auto
    with False sp ih show ?thesis by simp
  qed
qed

lemma is_shebang_prefix: "is_shebang (takeWhile p x) \<Longrightarrow> is_shebang x"
proof -
  assume a: "is_shebang (takeWhile p x)"
  have x: "x = takeWhile p x @ dropWhile p x" by simp
  from a have "2 \<le> length (takeWhile p x)"
    by (cases "takeWhile p x"; cases "tl (takeWhile p x)") (auto simp: is_shebang_def)
  then have "take 2 (takeWhile p x @ dropWhile p x) = take 2 (takeWhile p x)"
    by (simp del: takeWhile_dropWhile_id)
  then have "take 2 x = take 2 (takeWhile p x)" by simp
  with a show ?thesis by (simp add: is_shebang_def)
qed

lemma shebang_kept:
  assumes a1: "\<not> st []"
    and a3: "\<And>x. st x \<Longrightarrow> \<not> is_shebang x"
  shows "filter is_shebang (split_nl (sub_comment st True s)) = filter is_shebang (split_nl s)"
proof (induction s rule: length_induct)
  case (1 s)
  show ?case
  proof (cases "st (dropWhile is_space s)")
    case True
    let ?ws = "takeWhile is_space s"
    let ?rest = "dropWhile is_space s"
    let ?cl = "takeWhile (\<lambda>x. x \<noteq> NL) ?rest"
    have "\<not> is_shebang ?rest" by (rule a3 [OF True])
    then have ncl: "\<not> is_shebang ?cl" using is_shebang_prefix [of "\<lambda>x. x \<noteq> NL" ?rest] by blast
    have "\<forall>c \<in> set ?ws. is_space c" by (auto dest: set_takeWhileD)
    then have none: "\<forall>l \<in> set (split_nl (?ws @ ?cl)). \<not> is_shebang l"
      using takeWhile_not_nl [of ?rest] ncl by (rule space_prefix_lines)
    then have f0: "filter is_shebang (split_nl (?ws @ ?cl)) = []" by (simp add: filter_empty_conv)
    show ?thesis
    proof (cases "dropWhile (\<lambda>x. x \<noteq> NL) ?rest")
      case Nil
      have res: "sub_comment st True s = []"
        unfolding sub_comment_match [of st s, OF True a1] Nil by simp
      have "?rest = ?cl" by (rule line_whole [OF Nil, symmetric])
      then have "s = ?ws @ ?cl" using takeWhile_dropWhile_id [of is_space s] by simp
      then have "filter is_shebang (split_nl s) = []" using f0 by simp
      moreover have "\<not> is_shebang []" by (simp add: is_shebang_def)
      ultimately show ?thesis using res by simp
    next
      case (Cons n r)
      from match_rest_length [OF Cons] "1.IH"
      have ih: "filter is_shebang (split_nl (sub_comment st True r)) = filter is_shebang (split_nl r)"
        by blast
      have res: "sub_comment st True s = sub_comment st True r"
        unfolding sub_comment_match [of st s, OF True a1] Cons by simp
      have "s = ?ws @ ?rest" by simp
      also have "?rest = ?cl @ NL # r" by (rule line_split [OF Cons])
      finally have "s = (?ws @ ?cl) @ NL # r" by simp
      then have "split_nl s = split_nl (?ws @ ?cl) @ split_nl r"
        using split_nl_append_nl [of "?ws @ ?cl" r] by simp
      with f0 have "filter is_shebang (split_nl s) = filter is_shebang (split_nl r)" by simp
      with ih res show ?thesis by simp
    qed
  next
    case False
    let ?l0 = "takeWhile (\<lambda>x. x \<noteq> NL) s"
    show ?thesis
    proof (cases "dropWhile (\<lambda>x. x \<noteq> NL) s")
      case Nil
      have "sub_comment st True s = s"
        unfolding sub_comment_nomatch [of st s, OF False] Nil by (simp add: line_whole [OF Nil])
      then show ?thesis by simp
    next
      case (Cons n r)
      from dropWhile_nl_length [OF Cons] "1.IH"
      have ih: "filter is_shebang (split_nl (sub_comment st True r)) = filter is_shebang (split_nl r)"
        by blast
      have s: "s = ?l0 @ NL # r" by (rule line_split [OF Cons])
      have "split_nl (?l0 @ NL # r) = ?l0 # split_nl r"
        by (simp add: split_nl_line_append takeWhile_not_nl)
      with s have sp: "split_nl s = ?l0 # split_nl r" by simp
      have "sub_comment st True s = ?l0 @ NL # sub_comment st True r"
        using False Cons by (simp add: sub_comment_nomatch)
      then have "split_nl (sub_comment st True s) = ?l0 # split_nl (sub_comment st True r)"
        by (simp add: split_nl_line_append takeWhile_not_nl)
      with ih sp show ?thesis by simp
    qed
  qed
qed

lemma slashes_empty: "\<not> starts_slashes []"
  by (simp add: starts_slashes_def)

lemma hash_empty: "\<not> starts_hash []"
  by (simp add: starts_hash_def)

lemma slashes_append: "starts_slashes x \<Longrightarrow> starts_slashes (x @ rest)"
  by (cases x; cases "tl x") (auto simp: starts_slashes_def)

lemma hash_append: "starts_hash x \<Longrightarrow> rest = [] \<or> hd rest = NL \<Longrightarrow> starts_hash (x @ rest)"
  by (cases x; cases "tl x"; cases rest) (auto simp: starts_hash_def)

lemma slashes_not_shebang: "starts_slashes x \<Longrightarrow> \<not> is_shebang x"
  by (cases x; cases "tl x") (auto simp: starts_slashes_def is_shebang_def)

lemma hash_not_shebang: "starts_hash x \<Longrightarrow> \<not> is_shebang x"
  by (cases x; cases "tl x") (auto simp: starts_hash_def is_shebang_def)

lemma strip_comments_shebang:
  "filter is_shebang (split_nl (strip_comments code)) = filter is_shebang (split_nl code)"
  unfolding strip_comments_def
  using shebang_kept [of starts_hash "sub_comment starts_slashes True code", OF hash_empty hash_not_shebang]
        shebang_kept [of starts_slashes code, OF slashes_empty slashes_not_shebang]
  by simp

lemma strip_comments_no_comment:
  "l \<in> set (split_nl (strip_comments code)) \<Longrightarrow> \<not> comment_line l"
proof -
  let ?x = "sub_comment starts_slashes True code"
  assume l: "l \<in> set (split_nl (strip_comments code))"
  then have l': "l \<in> set (split_nl (sub_comment starts_hash True ?x))"
    by (simp add: strip_comments_def)
  have h: "\<not> starts_hash (dropWhile is_space l)"
    using no_comment_lines [of starts_hash ?x, OF hash_empty hash_append] l' by blast
  from l' lines_subset [of starts_hash ?x, OF hash_empty]
  have "l = [] \<or> l \<in> set (split_nl ?x)" by auto
  then have "\<not> starts_slashes (dropWhile is_space l)"
  proof
    assume "l = []"
    then show ?thesis by (simp add: slashes_empty)
  next
    assume "l \<in> set (split_nl ?x)"
    then show ?thesis
      using no_comment_lines [of starts_slashes code, OF slashes_empty slashes_append] by blast
  qed
  with h show ?thesis by (simp add: comment_line_def)
qed

lemma not_word_NL: "\<not> is_word NL"
  by (simp add: is_word_def)

lemma outside_block:
  "CHR 0x60 \<notin> set pre \<Longrightarrow> compress_code_blocks (pre @ s) = pre @ compress_code_blocks s"
  by (induction pre) auto

lemma first_block:
  assumes w: "\<forall>c \<in> set lang. is_word c"
    and f: "find_sub fence (code @ fence @ post) = Some (code, post)"
  shows "compress_code_blocks (fence @ lang @ NL # code @ fence @ post)
           = compress_code lang code @ compress_code_blocks post"
proof -
  have t: "takeWhile is_word (lang @ NL # code @ fence @ post) = lang"
    using w by (simp add: takeWhile_append2 not_word_NL)
  have d: "dropWhile is_word (lang @ NL # code @ fence @ post) = NL # code @ fence @ post"
    using w by (simp add: dropWhile_append2 not_word_NL)
  show ?thesis
    using f t d by (simp add: Let_def)
qed

text \<open>
  What the pass does with a block that it recognises. Take a text in which, behind a
  piece \<open>pre\<close> without backticks, a fenced block opens whose fence is followed by a run
  of word characters, possibly empty, and a newline, and whose body \<open>code\<close> runs to the
  first closing fence. \<open>_compress_code_blocks\<close> replaces that block by the fence, the tag
  and the body with its comments stripped, blank lines dropped and trailing white space
  trimmed, and goes on behind it; the lines of the body that begin with \<open>#!\<close> are, in
  order, the lines of the stripped body that begin with \<open>#!\<close>; and no line of the
  stripped body is a single-line comment. The pass runs at every level from 2 on.
\<close>

lemma recognised_block_stripped:
  assumes "CHR 0x60 \<notin> set pre"
    and "\<forall>c \<in> set lang. is_word c"
    and "find_sub fence (code @ fence @ post) = Some (code, post)"
  shows "compress_code_blocks (pre @ fence @ lang @ NL # code @ fence @ post)
           = pre @ fence @ lang @ [NL]
             @ py_strip (strip_trailing (sub_run (\<lambda>c. c = NL) 2 [NL] (strip_comments code)))
             @ [NL] @ fence @ compress_code_blocks post
       \<and> filter is_shebang (split_nl (strip_comments code)) = filter is_shebang (split_nl code)
       \<and> (\<forall>l \<in> set (split_nl (strip_comments code)). \<not> comment_line l)
       \<and> (2 \<le> lvl \<longrightarrow>
            compress_text L lvl t =
              (if 3 \<le> lvl then abbreviate_patterns else (\<lambda>r. r))
                (deduplicate_blocks L (compress_code_blocks (normalize_whitespace t))))"
proof -
  have "compress_code_blocks (pre @ fence @ lang @ NL # code @ fence @ post)
          = pre @ compress_code_blocks (fence @ lang @ NL # code @ fence @ post)"
    by (rule outside_block [OF assms(1)])
  also have "\<dots> = pre @ compress_code lang code @ compress_code_blocks post"
    by (simp only: first_block [OF assms(2) assms(3)])
  finally have block: "compress_code_blocks (pre @ fence @ lang @ NL # code @ fence @ post)
           = pre @ fence @ lang @ [NL]
             @ py_strip (strip_trailing (sub_run (\<lambda>c. c = NL) 2 [NL] (strip_comments code)))
             @ [NL] @ fence @ compress_code_blocks post"
    by (simp add: compress_code_def Let_def)
  have lvl: "2 \<le> lvl \<longrightarrow>
            compress_text L lvl t =
              (if 3 \<le> lvl then abbreviate_patterns else (\<lambda>r. r))
                (deduplicate_blocks L (compress_code_blocks (normalize_whitespace t)))"
    by (simp add: compress_text_def Let_def)
  from block lvl strip_comments_shebang [of code] strip_comments_no_comment [of _ code]
  show ?thesis by blast
qed

lemma find_bash:
  "find_sub fence (bash_code @ fence @ [NL] @ ''done'') = Some (bash_code, [NL] @ ''done'')"
  by (simp add: bash_code_def)

lemma strip_bash: "strip_comments bash_code = ''#!/bin/bash'' @ [NL] @ ''echo hello'' @ [NL]"
  by (simp add: bash_code_def strip_comments_def starts_slashes_def starts_hash_def is_space_def)

lemma recognised_block_example:
  "CHR 0x60 \<notin> set (''Run:'' @ [NL])
   \<and> list_all is_word ''bash''
   \<and> find_sub fence (bash_code @ fence @ [NL] @ ''done'') = Some (bash_code, [NL] @ ''done'')
   \<and> compress_code_blocks
        ((''Run:'' @ [NL]) @ fence @ ''bash'' @ NL # bash_code @ fence @ [NL] @ ''done'')
        = ''Run:'' @ [NL] @ fence @ ''bash'' @ [NL] @ ''#!/bin/bash'' @ [NL] @ ''echo hello''
          @ [NL] @ fence @ [NL] @ ''done''
   \<and> filter is_shebang (split_nl (strip_comments bash_code)) = [''#!/bin/bash'']
   \<and> split_nl (strip_comments bash_code) = [''#!/bin/bash'', ''echo hello'', []]
   \<and> filter comment_line (split_nl (strip_comments bash_code)) = []"
proof -
  have h0: "CHR 0x60 \<notin> set (''Run:'' @ [NL])" by simp
  have h1: "\<forall>c \<in> set ''bash''. is_word c" by (simp add: is_word_def)
  have h2: "find_sub fence (bash_code @ fence @ [NL] @ ''done'') = Some (bash_code, [NL] @ ''done'')"
    by (rule find_bash)
  have sp: "split_nl bash_code = [''#!/bin/bash'', ''# say hello'', ''echo hello'', []]"
    by (simp add: bash_code_def)
  have sp': "split_nl (strip_comments bash_code) = [''#!/bin/bash'', ''echo hello'', []]"
    by (simp add: strip_bash)
  have st: "py_strip (strip_trailing (sub_run (\<lambda>c. c = NL) 2 [NL] (strip_comments bash_code)))
              = ''#!/bin/bash'' @ [NL] @ ''echo hello''"
    by (simp add: strip_bash py_strip_def is_space_def is_blank_def)
  have post: "compress_code_blocks ([NL] @ ''done'') = [NL] @ ''done''"
    by simp
  from recognised_block_stripped [OF h0 h1 h2, of 2 toy_lib "[]"]
  have "compress_code_blocks
          ((''Run:'' @ [NL]) @ fence @ ''bash'' @ NL # bash_code @ fence @ [NL] @ ''done'')
          = (''Run:'' @ [NL]) @ fence @ ''bash'' @ [NL]
            @ py_strip (strip_trailing (sub_run (\<lambda>c. c = NL) 2 [NL] (strip_comments bash_code)))
            @ [NL] @ fence @ compress_code_blocks ([NL] @ ''done'')"
    and "filter is_shebang (split_nl (strip_comments bash_code))
          = filter is_shebang (split_nl bash_code)"
    and "\<forall>l \<in> set (split_nl (strip_comments bash_code)). \<not> comment_line l"
    by blast+
  with h0 h1 h2 sp sp' st post show ?thesis
    by (simp add: is_shebang_def filter_empty_conv list_all_iff)
qed

text \<open>
  Claim C8, evaluated at two texts with a fenced block that the pass does not strip. At
  level 2 the block with the tag \<open>c++\<close> comes back as it was, its comment line \<open>// x\<close>
  included: the pattern of \<open>_compress_code_blocks\<close> wants word characters and a newline
  behind the opening fence. And in a block tagged \<open>py\<close> that follows a block tagged
  \<open>c++\<close> the comment line \<open># secret\<close> stays: the pattern takes the closing fence of the
  first block for an opening fence and pairs it with the opening fence of the second.
\<close>

theorem fenced_comment_lines_kept:
  "compress_text toy_lib 2 cpp_block = cpp_block
   \<and> cpp_block = fence @ ''c++'' @ [NL] @ ''// x'' @ [NL] @ ''int y;'' @ [NL] @ fence
   \<and> ''// x'' \<in> set (split_nl (compress_text toy_lib 2 cpp_block))
   \<and> comment_line ''// x''
   \<and> compress_text toy_lib 2 two_blocks = two_blocks_out
   \<and> ''# secret'' \<in> set (split_nl (compress_text toy_lib 2 two_blocks))
   \<and> comment_line ''# secret''"
proof -
  have n: "normalize_whitespace cpp_block = cpp_block"
    by (simp add: cpp_block_def normalize_whitespace_def is_blank_def)
  have c: "compress_code_blocks cpp_block = cpp_block"
    by (simp add: cpp_block_def is_word_def)
  have d: "deduplicate_blocks toy_lib cpp_block = cpp_block"
    by (simp add: cpp_block_def deduplicate_blocks_def)
  have t: "compress_text toy_lib 2 cpp_block = cpp_block"
    by (simp add: compress_text_def n c d)
  have s: "''// x'' \<in> set (split_nl cpp_block)"
    by (simp add: cpp_block_def)
  have k: "comment_line ''// x''"
    by (simp add: comment_line_def starts_slashes_def is_space_def)
  have n2: "normalize_whitespace two_blocks = two_blocks"
    by (simp add: two_blocks_def normalize_whitespace_def is_blank_def)
  have c2: "compress_code_blocks two_blocks = two_blocks_out"
    by (simp add: two_blocks_def two_blocks_out_def is_word_def compress_code_def
          strip_comments_def py_strip_def)
  have d2: "deduplicate_blocks toy_lib two_blocks_out = two_blocks_out"
    by (simp add: two_blocks_out_def deduplicate_blocks_def)
  have t2: "compress_text toy_lib 2 two_blocks = two_blocks_out"
    by (simp add: compress_text_def n2 c2 d2)
  have s2: "''# secret'' \<in> set (split_nl two_blocks_out)"
    by (simp add: two_blocks_out_def)
  have k2: "comment_line ''# secret''"
    by (simp add: comment_line_def starts_slashes_def starts_hash_def is_space_def)
  from t s k t2 s2 k2 show ?thesis by (simp add: cpp_block_def)
qed

end
